theory Spec2Isabelle
  imports Main "HOL-Library.Product_Lexorder" "HOL-Library.Multiset"
begin

section \<open>Nested Sets trees (treebeard.ns_tree)\<close>

subsection \<open>Rows, tables and errors\<close>

text \<open>
  Column values are integers or strings. Keyword arguments and the serialized
  \<open>fields\<close> of a row are association lists from column names to values (the first
  entry of a key is the one a lookup sees).
\<close>

datatype val = IntV int | StrV string

type_synonym fields = "(string \<times> val) list"

text \<open>
  One row of the node table: the primary key, the four encoding columns of
  \<open>NS_Node\<close> and the user's own columns.
\<close>

record node =
  pk :: int
  tree_id :: int
  lft :: int
  rgt :: int
  depth :: int
  payload :: fields

type_synonym table = "node list"

datatype error =
    InvalidMoveToDescendant
  | InvalidPosition
  | DoesNotExist
  | MultipleObjectsReturned
  | IndexError
  | AttributeError
  | KeyError
  | UnboundLocalError

datatype pos =
    FirstChild | LastChild | SortedChild
  | FirstSibling | LastSibling | Left | Right | SortedSibling

text \<open>
  The model class: \<open>node_order_by\<close> is the class attribute of \<open>NS_Node\<close> (empty by
  default); \<open>key_after s n\<close> is the filter that \<open>get_sorted_pos_queryset\<close> of the base
  class \<open>treebeard.models.Node\<close> applies to a sibling \<open>s\<close> for a new object \<open>n\<close>. That
  method is not part of \<open>ns_tree.py\<close>, so its comparison is a parameter here.
\<close>

record config =
  node_order_by :: "string list"
  key_after :: "fields \<Rightarrow> fields \<Rightarrow> bool"

subsection \<open>The storage adapter\<close>

text \<open>
  \<open>Meta.ordering = ['tree_id', 'lft']\<close>: every queryset is read in this order.
\<close>

definition ordered :: "table \<Rightarrow> table" where
  "ordered t = sort_key (\<lambda>r. (tree_id r, lft r)) t"

definition objects_filter :: "(node \<Rightarrow> bool) \<Rightarrow> table \<Rightarrow> node list" where
  "objects_filter p t = ordered (filter p t)"

text \<open>\<open>cls.objects.get(pk=i)\<close>: exactly one row, or an exception.\<close>

definition objects_get :: "table \<Rightarrow> int \<Rightarrow> error + node" where
  "objects_get t i =
     (case filter (\<lambda>r. pk r = i) t of
        [] \<Rightarrow> Inl DoesNotExist
      | [r] \<Rightarrow> Inr r
      | _ \<Rightarrow> Inl MultipleObjectsReturned)"

text \<open>
  A set-based \<open>UPDATE t SET ... WHERE ...\<close>: every row the condition selects is
  replaced by its image, computed from the old values of the row.
\<close>

definition sql_update :: "(node \<Rightarrow> bool) \<Rightarrow> (node \<Rightarrow> node) \<Rightarrow> table \<Rightarrow> table" where
  "sql_update wh st t = map (\<lambda>r. if wh r then st r else r) t"

text \<open>
  \<open>cls(**kwargs)\<close> followed by \<open>save()\<close>. An \<open>id\<close> keyword fixes the primary key;
  otherwise the store assigns the next free one. The encoding columns are always
  assigned after construction, so keywords of these names never reach the row.
  Saving an object whose key is already in the table overwrites that row.
\<close>

definition next_pk :: "table \<Rightarrow> int" where
  "next_pk t = fold max (map pk t) 0 + 1"

definition new_pk :: "table \<Rightarrow> fields \<Rightarrow> int" where
  "new_pk t kwargs = (case map_of kwargs ''id'' of Some (IntV i) \<Rightarrow> i | _ \<Rightarrow> next_pk t)"

definition reserved :: "string list" where
  "reserved = [''id'', ''lft'', ''rgt'', ''depth'', ''tree_id'']"

definition new_payload :: "fields \<Rightarrow> fields" where
  "new_payload kwargs = filter (\<lambda>kv. fst kv \<notin> set reserved) kwargs"

definition save :: "table \<Rightarrow> node \<Rightarrow> table" where
  "save t obj =
     (if \<exists>r \<in> set t. pk r = pk obj
      then map (\<lambda>r. if pk r = pk obj then obj else r) t
      else t @ [obj])"

subsection \<open>Encoding primitives\<close>

text \<open>\<open>_move_right(tree_id, rgt, lftmove, incdec)\<close>\<close>

definition move_right :: "int \<Rightarrow> int \<Rightarrow> bool \<Rightarrow> int \<Rightarrow> table \<Rightarrow> table" where
  "move_right tid parent_rgt lftmove incdec =
     sql_update (\<lambda>r. rgt r \<ge> parent_rgt \<and> tree_id r = tid)
       (\<lambda>r. r\<lparr>lft := (if (if lftmove then lft r \<ge> parent_rgt else lft r > parent_rgt)
                        then lft r + incdec else lft r),
               rgt := (if rgt r \<ge> parent_rgt then rgt r + incdec else rgt r)\<rparr>)"

text \<open>\<open>_move_tree_right(tree_id)\<close>\<close>

definition move_tree_right :: "int \<Rightarrow> table \<Rightarrow> table" where
  "move_tree_right tid =
     sql_update (\<lambda>r. tree_id r \<ge> tid) (\<lambda>r. r\<lparr>tree_id := tree_id r + 1\<rparr>)"

text \<open>\<open>_get_close_gap_sql(drop_lft, drop_rgt, tree_id)\<close>\<close>

definition close_gap :: "int \<Rightarrow> int \<Rightarrow> int \<Rightarrow> table \<Rightarrow> table" where
  "close_gap drop_lft drop_rgt tid =
     sql_update (\<lambda>r. (lft r > drop_lft \<or> rgt r > drop_lft) \<and> tree_id r = tid)
       (\<lambda>r. r\<lparr>lft := (if lft r > drop_lft then lft r - (drop_rgt - drop_lft + 1) else lft r),
               rgt := (if rgt r > drop_lft then rgt r - (drop_rgt - drop_lft + 1) else rgt r)\<rparr>)"

subsection \<open>Read surface\<close>

definition is_leaf :: "node \<Rightarrow> bool" where
  "is_leaf n \<longleftrightarrow> rgt n - lft n = 1"

definition is_descendant_of :: "node \<Rightarrow> node \<Rightarrow> bool" where
  "is_descendant_of n a \<longleftrightarrow> tree_id n = tree_id a \<and> lft n > lft a \<and> rgt n < rgt a"

definition get_root_nodes :: "table \<Rightarrow> node list" where
  "get_root_nodes t = objects_filter (\<lambda>r. lft r = 1) t"

definition get_tree :: "table \<Rightarrow> node option \<Rightarrow> node list" where
  "get_tree t parent =
     (case parent of
        None \<Rightarrow> objects_filter (\<lambda>r. True) t
      | Some p \<Rightarrow>
          if is_leaf p then objects_filter (\<lambda>r. pk r = pk p) t
          else objects_filter (\<lambda>r. tree_id r = tree_id p \<and> lft p \<le> lft r \<and> lft r \<le> rgt p - 1) t)"

definition get_descendants :: "table \<Rightarrow> node \<Rightarrow> node list" where
  "get_descendants t n =
     (if is_leaf n then [] else filter (\<lambda>r. pk r \<noteq> pk n) (get_tree t (Some n)))"

definition get_children :: "table \<Rightarrow> node \<Rightarrow> node list" where
  "get_children t n = filter (\<lambda>r. depth r = depth n + 1) (get_descendants t n)"

text \<open>
  Modelled from the spec: \<open>is_root\<close>, \<open>get_last_root_node\<close>, \<open>get_last_child\<close>,
  \<open>get_first_sibling\<close>, \<open>get_last_sibling\<close> and the equality of nodes belong to the base
  class \<open>treebeard.models.Node\<close>, which is not in \<open>ns_tree.py\<close>. The spec has the roots as
  the rows with \<open>lft = 1\<close>, every result in \<open>(tree_id, lft)\<close> order, and the primary key as
  the identity of a node; first and last are taken in that order.
\<close>

definition is_root :: "node \<Rightarrow> bool" where
  "is_root n \<longleftrightarrow> lft n = 1"

definition node_eq :: "node \<Rightarrow> node \<Rightarrow> bool" where
  "node_eq a b \<longleftrightarrow> pk a = pk b"

definition last_opt :: "'a list \<Rightarrow> 'a option" where
  "last_opt xs = (case rev xs of [] \<Rightarrow> None | x # _ \<Rightarrow> Some x)"

definition first_opt :: "'a list \<Rightarrow> 'a option" where
  "first_opt xs = (case xs of [] \<Rightarrow> None | x # _ \<Rightarrow> Some x)"

definition get_last_root_node :: "table \<Rightarrow> node option" where
  "get_last_root_node t = last_opt (get_root_nodes t)"

definition get_last_child :: "table \<Rightarrow> node \<Rightarrow> node option" where
  "get_last_child t n = last_opt (get_children t n)"

definition get_ancestors :: "table \<Rightarrow> node \<Rightarrow> node list" where
  "get_ancestors t n =
     (if is_root n then []
      else objects_filter (\<lambda>r. tree_id r = tree_id n \<and> lft r < lft n \<and> rgt r > rgt n) t)"

text \<open>
  \<open>get_parent\<close> read from the table (no cached parent on the object): \<open>None\<close> for a
  root, the ancestor with the greatest \<open>lft\<close> otherwise; the \<open>[0]\<close> of an empty queryset
  raises \<open>IndexError\<close>.
\<close>

definition get_parent :: "table \<Rightarrow> node \<Rightarrow> error + node option" where
  "get_parent t n =
     (if is_root n then Inr None
      else case last_opt (get_ancestors t n) of
             None \<Rightarrow> Inl IndexError
           | Some p \<Rightarrow> Inr (Some p))"

definition get_siblings :: "table \<Rightarrow> node \<Rightarrow> error + node list" where
  "get_siblings t n =
     (if lft n = 1 then Inr (get_root_nodes t)
      else case get_parent t n of
             Inl e \<Rightarrow> Inl e
           | Inr None \<Rightarrow> Inl AttributeError
           | Inr (Some p) \<Rightarrow> Inr (get_children t p))"

definition get_first_sibling :: "table \<Rightarrow> node \<Rightarrow> error + node" where
  "get_first_sibling t n =
     (case get_siblings t n of
        Inl e \<Rightarrow> Inl e
      | Inr sibs \<Rightarrow> (case first_opt sibs of None \<Rightarrow> Inl IndexError | Some s \<Rightarrow> Inr s))"

definition get_last_sibling :: "table \<Rightarrow> node \<Rightarrow> error + node" where
  "get_last_sibling t n =
     (case get_siblings t n of
        Inl e \<Rightarrow> Inl e
      | Inr sibs \<Rightarrow> (case last_opt sibs of None \<Rightarrow> Inl IndexError | Some s \<Rightarrow> Inr s))"

definition get_sorted_pos_queryset :: "config \<Rightarrow> node list \<Rightarrow> fields \<Rightarrow> node list" where
  "get_sorted_pos_queryset cfg siblings newdata =
     filter (\<lambda>s. key_after cfg (payload s) newdata) siblings"

subsection \<open>Position tokens\<close>

text \<open>
  The \<open>sorted-sibling\<close> block shared by \<open>add_sibling\<close> and \<open>move\<close>: the pivot
  becomes the first sibling selected by \<open>get_sorted_pos_queryset\<close> with position
  \<open>left\<close>, or the position becomes \<open>last-sibling\<close>.
\<close>

definition resolve_sorted :: "config \<Rightarrow> table \<Rightarrow> node \<Rightarrow> fields \<Rightarrow> pos \<Rightarrow> error + (node \<times> pos)" where
  "resolve_sorted cfg t target newdata p =
     (if p = SortedSibling then
        (case get_siblings t target of
           Inl e \<Rightarrow> Inl e
         | Inr sibs \<Rightarrow>
             (case get_sorted_pos_queryset cfg sibs newdata of
                [] \<Rightarrow> Inr (target, LastSibling)
              | s # _ \<Rightarrow> Inr (s, Left)))
      else Inr (target, p))"

text \<open>
  The loop over \<open>siblings\<close> with the \<open>found\<close> flag: the node after the first one equal
  to the target, or the target itself when there is none.
\<close>

definition next_of :: "node \<Rightarrow> node list \<Rightarrow> node" where
  "next_of target siblings =
     (case dropWhile (\<lambda>n. \<not> node_eq n target) siblings of
        _ # n # _ \<Rightarrow> n
      | _ \<Rightarrow> target)"

text \<open>
  The block for \<open>left\<close>, \<open>right\<close> and \<open>first-sibling\<close>, also shared. Indexing the
  empty sibling list raises \<open>IndexError\<close> on each of the three paths.
\<close>

definition norm_sibling :: "table \<Rightarrow> node \<Rightarrow> pos \<Rightarrow> error + (node \<times> pos)" where
  "norm_sibling t target p =
     (if p = Left \<or> p = Right \<or> p = FirstSibling then
        (case get_siblings t target of
           Inl e \<Rightarrow> Inl e
         | Inr siblings \<Rightarrow>
             if siblings = [] then Inl IndexError
             else
               let (t1, p1) =
                     (if p = Right then
                        (if node_eq target (last siblings) then (target, LastSibling)
                         else (next_of target siblings, Left))
                      else (target, p));
                   p2 = (if p1 = Left \<and> node_eq t1 (hd siblings) then FirstSibling else p1);
                   t2 = (if p2 = FirstSibling then hd siblings else t1)
               in Inr (t2, p2))
      else Inr (target, p))"

subsection \<open>Mutation surface: insertion\<close>

definition insert_new :: "table \<Rightarrow> fields \<Rightarrow> int \<Rightarrow> int \<Rightarrow> int \<Rightarrow> int \<Rightarrow> table \<times> node" where
  "insert_new t kwargs tid l r d =
     (let newobj = \<lparr>pk = new_pk t kwargs, tree_id = tid, lft = l, rgt = r, depth = d,
                     payload = new_payload kwargs\<rparr>
      in (save t newobj, newobj))"

text \<open>
  \<open>add_sibling\<close>. The position is the one \<open>_fix_add_sibling_opts\<close> returns (a method
  of the base class, which rejects the child tokens). \<open>cached\<close> is the
  \<open>_cached_parent_obj\<close> of the receiver, if any: \<open>add_child\<close> sets it before delegating,
  and only the \<open>last-sibling\<close> path reads it without refreshing it first.
\<close>

definition add_sibling_cached ::
  "config \<Rightarrow> table \<Rightarrow> node option \<Rightarrow> node \<Rightarrow> pos \<Rightarrow> fields \<Rightarrow> error + (table \<times> node)" where
  "add_sibling_cached cfg t cached self pos0 kwargs =
     (if pos0 = FirstChild \<or> pos0 = LastChild \<or> pos0 = SortedChild then Inl InvalidPosition
      else if is_root self then
        (case resolve_sorted cfg t self (new_payload kwargs) pos0 of
           Inl e \<Rightarrow> Inl e
         | Inr (target, p) \<Rightarrow>
             let last_root = get_last_root_node t in
             if p = LastSibling \<or>
                (p = Right \<and> (case last_root of None \<Rightarrow> False | Some l \<Rightarrow> node_eq target l))
             then (case last_root of
                     None \<Rightarrow> Inl AttributeError
                   | Some l \<Rightarrow> Inr (insert_new t kwargs (tree_id l + 1) 1 2 (depth self)))
             else
               (case (case p of FirstSibling \<Rightarrow> Inr 1
                              | Left \<Rightarrow> Inr (tree_id target)
                              | Right \<Rightarrow> Inr (tree_id target + 1)
                              | _ \<Rightarrow> Inl KeyError) of
                  Inl e \<Rightarrow> Inl e
                | Inr newpos \<Rightarrow>
                    Inr (insert_new (move_tree_right newpos t) kwargs newpos 1 2 (depth self))))
      else
        (case resolve_sorted cfg t self (new_payload kwargs) pos0 of
           Inl e \<Rightarrow> Inl e
         | Inr (target1, p1) \<Rightarrow>
             (case norm_sibling t target1 p1 of
                Inl e \<Rightarrow> Inl e
              | Inr (target, p) \<Rightarrow>
                  if p = LastSibling then
                    (case (if pos0 = LastSibling \<and> cached \<noteq> None then Inr cached
                           else get_parent t target) of
                       Inl e \<Rightarrow> Inl e
                     | Inr None \<Rightarrow> Inl AttributeError
                     | Inr (Some par) \<Rightarrow>
                         let newpos = rgt par in
                         Inr (insert_new (move_right (tree_id target) newpos False 2 t) kwargs
                                (tree_id self) newpos (newpos + 1) (depth self)))
                  else if p = FirstSibling then
                    (let newpos = lft target in
                     Inr (insert_new (move_right (tree_id target) (newpos - 1) False 2 t) kwargs
                            (tree_id self) newpos (newpos + 1) (depth self)))
                  else if p = Left then
                    (let newpos = lft target in
                     Inr (insert_new (move_right (tree_id target) newpos True 2 t) kwargs
                            (tree_id self) newpos (newpos + 1) (depth self)))
                  else Inl UnboundLocalError)))"

definition add_sibling :: "config \<Rightarrow> table \<Rightarrow> node \<Rightarrow> pos \<Rightarrow> fields \<Rightarrow> error + (table \<times> node)" where
  "add_sibling cfg t self p kwargs = add_sibling_cached cfg t None self p kwargs"

definition add_root :: "config \<Rightarrow> table \<Rightarrow> fields \<Rightarrow> error + (table \<times> node)" where
  "add_root cfg t kwargs =
     (case get_last_root_node t of
        Some last_root \<Rightarrow>
          if node_order_by cfg \<noteq> [] then add_sibling cfg t last_root SortedSibling kwargs
          else Inr (insert_new t kwargs (tree_id last_root + 1) 1 2 1)
      | None \<Rightarrow> Inr (insert_new t kwargs 1 1 2 1))"

text \<open>
  \<open>add_child\<close>; \<open>self\<close> is the receiver as the caller holds it, and the third
  component of the result is the receiver after the call (its \<open>rgt\<close> is updated in
  memory when the first child is added). When the receiver has children the call is
  delegated to the last child, with the receiver as its cached parent;
  \<open>get_last_child\<close> of the base class gives \<open>None\<close> on an empty queryset.
\<close>

definition add_child ::
  "config \<Rightarrow> table \<Rightarrow> node \<Rightarrow> fields \<Rightarrow> error + (table \<times> node \<times> node)" where
  "add_child cfg t self kwargs =
     (if \<not> is_leaf self then
        (let p = (if node_order_by cfg \<noteq> [] then SortedSibling else LastSibling) in
         case get_last_child t self of
           None \<Rightarrow> Inl AttributeError
         | Some last_child \<Rightarrow>
             (case objects_get t (pk self) of
                Inl e \<Rightarrow> Inl e
              | Inr tmp \<Rightarrow>
                  (case add_sibling_cached cfg t (Some self) last_child p kwargs of
                     Inl e \<Rightarrow> Inl e
                   | Inr (t', newobj) \<Rightarrow> Inr (t', newobj, self))))
      else
        (case insert_new (move_right (tree_id self) (rgt self) False 2 t) kwargs
                (tree_id self) (lft self + 1) (lft self + 2) (depth self + 1) of
           (t', newobj) \<Rightarrow> Inr (t', newobj, self\<lparr>rgt := rgt self + 2\<rparr>)))"

subsection \<open>Mutation surface: move\<close>

text \<open>
  Lines 402 to 411 of \<open>move\<close>: a child token against a leaf keeps the target as
  \<open>parent\<close> and becomes \<open>last-child\<close>; against a node with children the pivot is the
  last child and the token its sibling form. The result is \<open>(parent, target, pos)\<close>.
\<close>

definition child_norm :: "table \<Rightarrow> node \<Rightarrow> pos \<Rightarrow> error + (node option \<times> node \<times> pos)" where
  "child_norm t target p =
     (if p = FirstChild \<or> p = LastChild \<or> p = SortedChild then
        (if is_leaf target then Inr (Some target, target, LastChild)
         else case get_last_child t target of
                None \<Rightarrow> Inl AttributeError
              | Some c \<Rightarrow>
                  Inr (None, c, (case p of FirstChild \<Rightarrow> FirstSibling
                                         | LastChild \<Rightarrow> LastSibling
                                         | _ \<Rightarrow> SortedSibling)))
      else Inr (None, target, p))"

text \<open>The condition of the early \<open>return\<close> (lines 416 to 421), evaluated left to right.\<close>

definition is_noop :: "table \<Rightarrow> node \<Rightarrow> node \<Rightarrow> pos \<Rightarrow> error + bool" where
  "is_noop t self target p =
     (if \<not> node_eq self target then Inr False
      else if p = Left then Inr True
      else if p = Right \<or> p = LastSibling then
        (case get_last_sibling t target of
           Inl e \<Rightarrow> Inl e
         | Inr s \<Rightarrow> Inr (node_eq target s))
      else if p = FirstSibling then
        (case get_first_sibling t target of
           Inl e \<Rightarrow> Inl e | Inr f \<Rightarrow> Inr (node_eq target f))
      else Inr False)"

text \<open>
  "first make a hole" (lines 457 to 486): the result is \<open>(newpos, target_tree, table)\<close>
  with the table after the statement, if one is executed.
\<close>

definition open_hole ::
  "table \<Rightarrow> node \<Rightarrow> node option \<Rightarrow> node \<Rightarrow> pos \<Rightarrow> error + (int \<times> int \<times> table)" where
  "open_hole t self parent target p =
     (let gap = rgt self - lft self + 1 in
      if p = LastChild then
        (case parent of
           None \<Rightarrow> Inl AttributeError
         | Some par \<Rightarrow>
             Inr (rgt par, tree_id target, move_right (tree_id target) (rgt par) False gap t))
      else if is_root target then
        (if p = LastSibling then
           (case get_siblings t target of
              Inl e \<Rightarrow> Inl e
            | Inr sibs \<Rightarrow>
                (case last_opt sibs of
                   None \<Rightarrow> Inl IndexError
                 | Some l \<Rightarrow> Inr (1, tree_id l + 1, t)))
         else if p = FirstSibling then Inr (1, 1, move_tree_right 1 t)
         else if p = Left then Inr (1, tree_id target, move_tree_right (tree_id target) t)
         else Inr (1, tree_id target, t))
      else
        (if p = LastSibling then
           (case get_parent t target of
              Inl e \<Rightarrow> Inl e
            | Inr None \<Rightarrow> Inl AttributeError
            | Inr (Some par) \<Rightarrow>
                Inr (rgt par, tree_id target, move_right (tree_id target) (rgt par) False gap t))
         else if p = FirstSibling then
           Inr (lft target, tree_id target,
                move_right (tree_id target) (lft target - 1) False gap t)
         else if p = Left then
           Inr (lft target, tree_id target, move_right (tree_id target) (lft target) True gap t)
         else Inl UnboundLocalError))"

text \<open>"move the tree to the hole" (lines 497 to 512).\<close>

definition relocate :: "node \<Rightarrow> int \<Rightarrow> int \<Rightarrow> int \<Rightarrow> table \<Rightarrow> table" where
  "relocate fromobj target_tree newpos depthdiff =
     sql_update
       (\<lambda>r. tree_id r = tree_id fromobj \<and> lft fromobj \<le> lft r \<and> lft r \<le> rgt fromobj)
       (\<lambda>r. r\<lparr>tree_id := target_tree,
               lft := lft r + (newpos - lft fromobj),
               rgt := rgt r + (newpos - lft fromobj),
               depth := depth r + depthdiff\<rparr>)"

text \<open>
  Everything \<open>move\<close> decides before its first statement: the normalized position,
  the pivot and the \<open>parent\<close> variable. \<open>None\<close> is the early \<open>return\<close>.
\<close>

definition move_normalize ::
  "config \<Rightarrow> table \<Rightarrow> node \<Rightarrow> node \<Rightarrow> pos \<Rightarrow> error + (node option \<times> node \<times> pos) option" where
  "move_normalize cfg t self target0 pos0 =
     (case child_norm t target0 pos0 of
        Inl e \<Rightarrow> Inl e
      | Inr (parent, target1, p1) \<Rightarrow>
          if is_descendant_of target1 self then Inl InvalidMoveToDescendant
          else
            (case is_noop t self target1 p1 of
               Inl e \<Rightarrow> Inl e
             | Inr True \<Rightarrow> Inr None
             | Inr False \<Rightarrow>
                 (case resolve_sorted cfg t target1 (payload self) p1 of
                    Inl e \<Rightarrow> Inl e
                  | Inr (target2, p2) \<Rightarrow>
                      (case norm_sibling t target2 p2 of
                         Inl e \<Rightarrow> Inl e
                       | Inr (target, p) \<Rightarrow> Inr (Some (parent, target, p))))))"

text \<open>
  \<open>move\<close>. \<open>self\<close> and \<open>target\<close> are the objects the caller holds, the position is
  the one \<open>_fix_move_opts\<close> of the base class returns, and the parent of the pivot is
  read from the table. An exception is returned together with the table as it is when
  the exception is raised, so that the statements executed before it are visible.
\<close>

definition move :: "config \<Rightarrow> table \<Rightarrow> node \<Rightarrow> node \<Rightarrow> pos \<Rightarrow> (error \<times> table) + table" where
  "move cfg t self target0 pos0 =
     (case move_normalize cfg t self target0 pos0 of
        Inl e \<Rightarrow> Inl (e, t)
      | Inr None \<Rightarrow> Inr t
      | Inr (Some (parent, target, p)) \<Rightarrow>
          (case open_hole t self parent target p of
             Inl e \<Rightarrow> Inl (e, t)
           | Inr (newpos, target_tree, t1) \<Rightarrow>
               (case objects_get t1 (pk self) of
                  Inl e \<Rightarrow> Inl (e, t1)
                | Inr fromobj \<Rightarrow>
                    let depthdiff = depth target - depth fromobj
                                    + (if parent \<noteq> None then 1 else 0);
                        t2 = relocate fromobj target_tree newpos depthdiff t1
                    in Inr (close_gap (lft fromobj) (rgt fromobj) (tree_id fromobj) t2))))"

subsection \<open>Cascading delete\<close>

text \<open>
  A queryset is the predicate that selects its rows. \<open>sorted(removed_ranges,
  reverse=True)\<close> on triples of integers is the ascending sort read backwards.
\<close>

type_synonym range = "int \<times> int \<times> int"

definition sorted_reverse :: "range list \<Rightarrow> range list" where
  "sorted_reverse rs = rev (sort rs)"

definition close_range :: "table \<Rightarrow> range \<Rightarrow> table" where
  "close_range t rg = (case rg of (tid, drop_lft, drop_rgt) \<Rightarrow> close_gap drop_lft drop_rgt tid t)"

definition delete_hot :: "(node \<Rightarrow> bool) \<Rightarrow> range list \<Rightarrow> table \<Rightarrow> table" where
  "delete_hot q removed_ranges t =
     foldl close_range (filter (\<lambda>r. \<not> q r) t) (sorted_reverse removed_ranges)"

text \<open>The \<open>removed\<close> dictionary, from node ids to nodes, and the loop that fills it.\<close>

definition dict_set :: "(int \<times> node) list \<Rightarrow> int \<Rightarrow> node \<Rightarrow> (int \<times> node) list" where
  "dict_set d k v =
     (if k \<in> fst ` set d then map (\<lambda>kv. if fst kv = k then (k, v) else kv) d else d @ [(k, v)])"

definition cover_step :: "(int \<times> node) list \<Rightarrow> node \<Rightarrow> (int \<times> node) list" where
  "cover_step removed n =
     (if \<exists>kv \<in> set removed. is_descendant_of n (snd kv) then removed
      else dict_set removed (pk n) n)"

definition in_ranges :: "range list \<Rightarrow> node \<Rightarrow> bool" where
  "in_ranges rs r \<longleftrightarrow>
     (\<exists>rg \<in> set rs. case rg of (tid, l, h) \<Rightarrow> l \<le> lft r \<and> lft r \<le> h \<and> tree_id r = tid)"

definition delete_cold :: "(node \<Rightarrow> bool) \<Rightarrow> table \<Rightarrow> table" where
  "delete_cold q t =
     (let removed = foldl cover_step [] (objects_filter q t);
          ranges = map (\<lambda>kv. (tree_id (snd kv), lft (snd kv), rgt (snd kv))) removed
      in if removed \<noteq> [] then delete_hot (in_ranges ranges) ranges t else t)"

definition delete :: "(node \<Rightarrow> bool) \<Rightarrow> range list option \<Rightarrow> table \<Rightarrow> table" where
  "delete q removed_ranges t =
     (case removed_ranges of
        Some rs \<Rightarrow> delete_hot q rs t
      | None \<Rightarrow> delete_cold q t)"

subsection \<open>Bulk I/O\<close>

text \<open>
  A record of the bulk format: \<open>data\<close>, the optional \<open>children\<close> and the optional
  \<open>id\<close>.
\<close>

datatype rec = Rec (rdata: fields) (rchildren: "rec list option") (rid: "int option")

fun rsize :: "rec \<Rightarrow> nat" where
  "rsize (Rec d ch i) = Suc (case ch of None \<Rightarrow> 0 | Some cs \<Rightarrow> sum_list (map rsize cs))"

text \<open>
  The keyword arguments \<open>load_bulk\<close> builds for one record: a copy of \<open>data\<close>, with
  \<open>id\<close> set from the record when \<open>keep_ids\<close> is set (a record without \<open>id\<close> raises
  \<open>KeyError\<close> then).
\<close>

definition node_data :: "bool \<Rightarrow> rec \<Rightarrow> error + fields" where
  "node_data keep_ids node_struct =
     (if keep_ids then
        (case rid node_struct of
           None \<Rightarrow> Inl KeyError
         | Some i \<Rightarrow> Inr ((''id'', IntV i) # rdata node_struct))
      else Inr (rdata node_struct))"

text \<open>One turn of the \<open>while stack\<close> loop for the popped pair: the node it creates.\<close>

definition load_one ::
  "config \<Rightarrow> bool \<Rightarrow> table \<Rightarrow> int option \<Rightarrow> rec \<Rightarrow> error + (table \<times> node)" where
  "load_one cfg keep_ids t parent_id node_struct =
     (case node_data keep_ids node_struct of
        Inl e \<Rightarrow> Inl e
      | Inr kwargs \<Rightarrow>
          (case parent_id of
             None \<Rightarrow> add_root cfg t kwargs
           | Some i \<Rightarrow>
               if i \<noteq> 0 then
                 (case objects_get t i of
                    Inl e \<Rightarrow> Inl e
                  | Inr parent \<Rightarrow>
                      (case add_child cfg t parent kwargs of
                         Inl e \<Rightarrow> Inl e
                       | Inr (t', node_obj, parent') \<Rightarrow> Inr (t', node_obj)))
               else add_root cfg t kwargs))"

definition stack_size :: "(int option \<times> rec) list \<Rightarrow> nat" where
  "stack_size st = sum_list (map (\<lambda>x. rsize (snd x)) st)"

definition push_children :: "int \<Rightarrow> rec \<Rightarrow> (int option \<times> rec) list \<Rightarrow> (int option \<times> rec) list" where
  "push_children i node_struct st =
     (case rchildren node_struct of
        None \<Rightarrow> st
      | Some cs \<Rightarrow> map (\<lambda>c. (Some i, c)) cs @ st)"

text \<open>
  The loop. The stack is kept with its top at the head of the list: the source
  pushes reversed lists at the end and pops from the end.
\<close>

function load_loop ::
  "config \<Rightarrow> bool \<Rightarrow> (int option \<times> rec) list \<Rightarrow> table \<Rightarrow> int list \<Rightarrow> error + (table \<times> int list)" where
  "load_loop cfg keep_ids [] t added = Inr (t, added)"
| "load_loop cfg keep_ids ((parent_id, node_struct) # st) t added =
     (case load_one cfg keep_ids t parent_id node_struct of
        Inl e \<Rightarrow> Inl e
      | Inr (t', node_obj) \<Rightarrow>
          load_loop cfg keep_ids (push_children (pk node_obj) node_struct st) t'
            (added @ [pk node_obj]))"
  by pat_completeness auto
termination
proof (relation "measure (\<lambda>(cfg, k, st, t, added). stack_size st)")
  show "wf (measure (\<lambda>(cfg, k, st, t, added). stack_size st))" by simp
next
  fix cfg :: config and keep_ids :: bool and parent_id :: "int option" and node_struct :: rec
    and st :: "(int option \<times> rec) list" and t :: table and added :: "int list"
    and x :: "table \<times> node" and t' :: table and node_obj :: node
  have "stack_size (push_children (pk node_obj) node_struct st)
          < stack_size ((parent_id, node_struct) # st)"
    by (cases node_struct)
       (simp add: stack_size_def push_children_def comp_def split: option.split)
  then show "((cfg, keep_ids, push_children (pk node_obj) node_struct st, t', added @ [pk node_obj]),
              (cfg, keep_ids, (parent_id, node_struct) # st, t, added))
             \<in> measure (\<lambda>(cfg, k, st, t, added). stack_size st)"
    by simp
qed

definition load_bulk ::
  "config \<Rightarrow> table \<Rightarrow> rec list \<Rightarrow> node option \<Rightarrow> bool \<Rightarrow> error + (table \<times> int list)" where
  "load_bulk cfg t bulk_data parent keep_ids =
     load_loop cfg keep_ids (map (\<lambda>r. (map_option pk parent, r)) bulk_data) t []"

text \<open>
  \<open>dump_bulk\<close>. The serializer of the store gives the primary key and a \<open>fields\<close>
  mapping with the columns of the row. The records under construction are shared
  between \<open>ret\<close>, the \<open>children\<close> lists and \<open>lnk\<close>; each one is created once, so it is
  tagged with its creation index, and appending to the \<open>children\<close> of the record that
  \<open>lnk\<close> holds is an update at that index.
\<close>

definition serialize_fields :: "node \<Rightarrow> fields" where
  "serialize_fields r =
     [(''lft'', IntV (lft r)), (''rgt'', IntV (rgt r)), (''tree_id'', IntV (tree_id r)),
      (''depth'', IntV (depth r))] @ payload r"

definition del_key :: "string \<Rightarrow> fields \<Rightarrow> fields" where
  "del_key k fs = filter (\<lambda>kv. fst kv \<noteq> k) fs"

definition dump_fields :: "node \<Rightarrow> fields" where
  "dump_fields r =
     (let fs = del_key ''tree_id'' (del_key ''depth'' (del_key ''rgt'' (del_key ''lft''
                 (serialize_fields r))))
      in if ''id'' \<in> fst ` set fs then del_key ''id'' fs else fs)"

datatype trec = TRec nat fields "trec list option" "int option"

fun append_child :: "nat \<Rightarrow> trec \<Rightarrow> trec \<Rightarrow> trec" where
  "append_child a c (TRec b d ch i) =
     (if a = b then TRec b d (Some (case ch of None \<Rightarrow> [c] | Some cs \<Rightarrow> cs @ [c])) i
      else TRec b d (map_option (map (append_child a c)) ch) i)"

fun untag :: "trec \<Rightarrow> rec" where
  "untag (TRec b d ch i) = Rec d (map_option (map untag) ch) i"

record dump_state =
  ret :: "trec list"
  lnk :: "(int \<times> nat) list"
  created :: nat

definition dump_step ::
  "table \<Rightarrow> node option \<Rightarrow> bool \<Rightarrow> dump_state \<Rightarrow> node \<Rightarrow> error + dump_state" where
  "dump_step t parent keep_ids st pyobj =
     (let newobj = TRec (created st) (dump_fields pyobj) None
                     (if keep_ids then Some (pk pyobj) else None)
      in if (case parent of None \<Rightarrow> depth pyobj = 1 | Some p \<Rightarrow> depth pyobj = depth p)
         then Inr \<lparr>ret = ret st @ [newobj],
                   lnk = (pk pyobj, created st) # lnk st,
                   created = Suc (created st)\<rparr>
         else
           (case get_parent t pyobj of
              Inl e \<Rightarrow> Inl e
            | Inr None \<Rightarrow> Inl AttributeError
            | Inr (Some parentobj) \<Rightarrow>
                (case map_of (lnk st) (pk parentobj) of
                   None \<Rightarrow> Inl KeyError
                 | Some a \<Rightarrow>
                     Inr \<lparr>ret = map (append_child a newobj) (ret st),
                           lnk = (pk pyobj, created st) # lnk st,
                           created = Suc (created st)\<rparr>)))"

fun dump_loop ::
  "table \<Rightarrow> node option \<Rightarrow> bool \<Rightarrow> dump_state \<Rightarrow> node list \<Rightarrow> error + dump_state" where
  "dump_loop t parent keep_ids st [] = Inr st"
| "dump_loop t parent keep_ids st (pyobj # qset) =
     (case dump_step t parent keep_ids st pyobj of
        Inl e \<Rightarrow> Inl e
      | Inr st' \<Rightarrow> dump_loop t parent keep_ids st' qset)"

definition dump_bulk :: "table \<Rightarrow> node option \<Rightarrow> bool \<Rightarrow> error + rec list" where
  "dump_bulk t parent keep_ids =
     (case dump_loop t parent keep_ids \<lparr>ret = [], lnk = [], created = 0\<rparr> (get_tree t parent) of
        Inl e \<Rightarrow> Inl e
      | Inr st \<Rightarrow> Inr (map untag (ret st)))"

subsection \<open>Invariant 3 and the default model class\<close>

text \<open>
  The bounds in use in one tree, as a multiset, and the contiguity invariant: in
  every tree of the table they are exactly \<open>1, ..., 2N\<close> for the \<open>N\<close> rows of the tree.
\<close>

definition tree_rows :: "table \<Rightarrow> int \<Rightarrow> node list" where
  "tree_rows t tid = filter (\<lambda>r. tree_id r = tid) t"

definition tree_bounds :: "table \<Rightarrow> int \<Rightarrow> int multiset" where
  "tree_bounds t tid = mset (map lft (tree_rows t tid) @ map rgt (tree_rows t tid))"

definition contiguous_tree :: "table \<Rightarrow> int \<Rightarrow> bool" where
  "contiguous_tree t tid \<longleftrightarrow>
     tree_bounds t tid = mset [1 ..  2 * int (length (tree_rows t tid))]"

text \<open>Every tree in use has its root row, the row with \<open>lft = 1\<close>.\<close>

definition every_tree_has_root :: "table \<Rightarrow> bool" where
  "every_tree_has_root t \<longleftrightarrow>
     list_all (\<lambda>r. list_ex (\<lambda>r'. tree_id r' = tree_id r \<and> lft r' = 1) t) t"

text \<open>\<open>NS_Node\<close> as it is declared: \<open>node_order_by = []\<close>, so nothing is selected by key.\<close>

definition default_config :: config where
  "default_config = \<lparr>node_order_by = [], key_after = (\<lambda>a b. False)\<rparr>"

definition enc :: "node \<Rightarrow> int \<times> int \<times> int \<times> int" where
  "enc r = (tree_id r, lft r, rgt r, depth r)"

subsection \<open>Properties of records\<close>

text \<open>
  A dumped record is clean when, in it and in all the records below it, \<open>data\<close> has
  none of the keys \<open>id\<close>, \<open>lft\<close>, \<open>rgt\<close>, \<open>depth\<close> and \<open>tree_id\<close>, and the top-level \<open>id\<close> is
  present exactly when \<open>keep_ids\<close> is set.
\<close>

fun clean_rec :: "bool \<Rightarrow> rec \<Rightarrow> bool" where
  "clean_rec keep_ids (Rec d ch i) =
     (set reserved \<inter> fst ` set d = {} \<and> (i \<noteq> None) = keep_ids \<and>
      (case ch of None \<Rightarrow> True | Some cs \<Rightarrow> list_all (clean_rec keep_ids) cs))"

text \<open>The records of a bulk structure in the order \<open>load_bulk\<close> creates their nodes.\<close>

fun preorder :: "rec \<Rightarrow> rec list" where
  "preorder (Rec d ch i) =
     Rec d ch i # (case ch of None \<Rightarrow> [] | Some cs \<Rightarrow> concat (map preorder cs))"

text \<open>
  What \<open>load_bulk\<close> guarantees about the id \<open>i\<close> of the node created for the record
  \<open>r\<close>: with \<open>keep_ids\<close> it is the record's \<open>id\<close>; without, it is the integer under \<open>id\<close>
  in \<open>data\<close> when there is one.
\<close>

definition created_id_ok :: "bool \<Rightarrow> rec \<Rightarrow> int \<Rightarrow> bool" where
  "created_id_ok keep_ids r i =
     (if keep_ids then rid r = Some i
      else (case map_of (rdata r) ''id'' of Some (IntV j) \<Rightarrow> i = j | _ \<Rightarrow> True))"

subsection \<open>Record trees as nested sets\<close>

text \<open>The children of a record, an absent \<open>children\<close> entry read as the empty list.\<close>

definition kids :: "rec \<Rightarrow> rec list" where
  "kids r = (case rchildren r of None \<Rightarrow> [] | Some cs \<Rightarrow> cs)"

text \<open>The number of records in a list of record trees.\<close>

definition fsize :: "rec list \<Rightarrow> nat" where
  "fsize cs = sum_list (map rsize cs)"

text \<open>
  The rows of a record tree in tree \<open>T\<close>: the records in preorder, with consecutive
  primary keys from \<open>k\<close>, the left bound of the first at \<open>l\<close> and its depth \<open>d\<close>; a record
  with \<open>n\<close> records below and including it spans \<open>2n\<close> positions.
\<close>

fun enc_tree :: "int \<Rightarrow> int \<Rightarrow> int \<Rightarrow> int \<Rightarrow> rec \<Rightarrow> node list"
  and enc_forest :: "int \<Rightarrow> int \<Rightarrow> int \<Rightarrow> int \<Rightarrow> rec list \<Rightarrow> node list" where
  "enc_tree T k l d (Rec dat ch i) =
     \<lparr>pk = k, tree_id = T, lft = l, rgt = l + 2 * int (rsize (Rec dat ch i)) - 1, depth = d,
      payload = dat\<rparr>
     # (case ch of None \<Rightarrow> [] | Some cs \<Rightarrow> enc_forest T (k + 1) (l + 1) (d + 1) cs)"
| "enc_forest T k l d [] = []"
| "enc_forest T k l d (c # cs) =
     enc_tree T k l d c @ enc_forest T (k + int (rsize c)) (l + 2 * int (rsize c)) d cs"

text \<open>A row that lies in the block of \<open>n\<close> records encoded from key \<open>k\<close> and position \<open>l\<close>.\<close>

definition in_block :: "int \<Rightarrow> int \<Rightarrow> int \<Rightarrow> int \<Rightarrow> nat \<Rightarrow> node \<Rightarrow> bool" where
  "in_block T k l d n x \<longleftrightarrow>
     tree_id x = T \<and> k \<le> pk x \<and> pk x < k + int n \<and> l \<le> lft x \<and> lft x < rgt x \<and>
     rgt x \<le> l + 2 * int n - 1 \<and> d \<le> depth x"

text \<open>The row of a node just created with no children.\<close>

definition new_row :: "int \<Rightarrow> int \<Rightarrow> int \<Rightarrow> int \<Rightarrow> fields \<Rightarrow> node" where
  "new_row k T l d dat = \<lparr>pk = k, tree_id = T, lft = l, rgt = l + 1, depth = d, payload = dat\<rparr>"

text \<open>The \<open>n\<close> consecutive keys from \<open>k\<close>.\<close>

definition ids :: "int \<Rightarrow> nat \<Rightarrow> int list" where
  "ids k n = map (\<lambda>i. k + int i) [0..<n]"

text \<open>The \<open>tree_id\<close> that \<open>add_root\<close> gives to a new last root.\<close>

definition new_tree_id :: "table \<Rightarrow> int" where
  "new_tree_id t = (case get_last_root_node t of None \<Rightarrow> 1 | Some l \<Rightarrow> tree_id l + 1)"

text \<open>
  Where \<open>add_root\<close> puts a new root with the fields \<open>dat\<close>, and the table it is created
  in: the first tree of an empty table; after the last root when the model class has no
  sort key or no root is selected by \<open>get_sorted_pos_queryset\<close>; otherwise at the
  \<open>tree_id\<close> of the first selected root, with that tree and the trees after it moved on
  by \<open>_move_tree_right\<close>.
\<close>

definition root_place :: "config \<Rightarrow> table \<Rightarrow> fields \<Rightarrow> int \<times> table" where
  "root_place cfg t dat =
     (case get_last_root_node t of
        None \<Rightarrow> (1, t)
      | Some l \<Rightarrow>
          if node_order_by cfg = [] then (tree_id l + 1, t)
          else (case get_sorted_pos_queryset cfg (get_root_nodes t) dat of
                  [] \<Rightarrow> (tree_id l + 1, t)
                | s # _ \<Rightarrow> (tree_id s, move_tree_right (tree_id s) t)))"

text \<open>
  Every root row is at depth 1. A root created as a sibling of the last root takes the
  depth of that root.
\<close>

definition roots_at_depth_one :: "table \<Rightarrow> bool" where
  "roots_at_depth_one t \<longleftrightarrow> list_all (\<lambda>x. lft x \<noteq> 1 \<or> depth x = 1) t"

text \<open>
  What opening a hole of width \<open>w\<close> at position \<open>x\<close> does to a row when no \<open>lft\<close> of
  its tree lies right of the position: only right bounds move.
\<close>

definition bump :: "int \<Rightarrow> int \<Rightarrow> int \<Rightarrow> node \<Rightarrow> node" where
  "bump T x w r = (if tree_id r = T \<and> x \<le> rgt r then r\<lparr>rgt := rgt r + w\<rparr> else r)"

text \<open>
  The state of the table in which \<open>load_bulk\<close> adds the next child of the row \<open>P\<close>:
  \<open>P\<close> is the only row with its key, nothing of its tree starts at or right of its
  right bound, no other row starts where it starts, and it is a leaf or has a child row.
\<close>

definition slot :: "table \<Rightarrow> node \<Rightarrow> bool" where
  "slot t P \<longleftrightarrow>
     filter (\<lambda>r. pk r = pk P) t = [P] \<and> pk P \<noteq> 0 \<and> 1 \<le> lft P \<and> lft P < rgt P \<and>
     (\<forall>x \<in> set t. tree_id x = tree_id P \<longrightarrow> lft x < rgt P) \<and>
     (\<forall>x \<in> set t. tree_id x = tree_id P \<and> lft P \<le> lft x \<and> pk x \<noteq> pk P \<longrightarrow> lft P < lft x) \<and>
     (is_leaf P \<or>
      (\<exists>x \<in> set t. tree_id x = tree_id P \<and> lft P \<le> lft x \<and> lft x \<le> rgt P - 1 \<and>
                    pk x \<noteq> pk P \<and> depth x = depth P + 1))"

subsection \<open>Records under construction\<close>

text \<open>The creation indices in a tagged record.\<close>

fun addrs :: "trec \<Rightarrow> nat set" where
  "addrs (TRec b d ch i) =
     insert b (case ch of None \<Rightarrow> {} | Some cs \<Rightarrow> \<Union> (addrs ` set cs))"

text \<open>
  The tagged record that \<open>dump_bulk\<close> builds for a record tree whose rows are read
  from creation index \<open>b\<close> and key \<open>k\<close> on: a record without children has no
  \<open>children\<close> entry.
\<close>

fun tag_tree :: "bool \<Rightarrow> nat \<Rightarrow> int \<Rightarrow> rec \<Rightarrow> trec"
  and tag_forest :: "bool \<Rightarrow> nat \<Rightarrow> int \<Rightarrow> rec list \<Rightarrow> trec list" where
  "tag_tree keep b k (Rec dat ch i) =
     TRec b dat
       (case ch of None \<Rightarrow> None
        | Some cs \<Rightarrow> if cs = [] then None else Some (tag_forest keep (Suc b) (k + 1) cs))
       (if keep then Some k else None)"
| "tag_forest keep b k [] = []"
| "tag_forest keep b k (c # cs) =
     tag_tree keep b k c # tag_forest keep (b + rsize c) (k + int (rsize c)) cs"

text \<open>A \<open>children\<close> entry after more children are appended.\<close>

definition grow :: "trec list option \<Rightarrow> trec list \<Rightarrow> trec list option" where
  "grow ch cs = (if cs = [] then ch else Some ((case ch of None \<Rightarrow> [] | Some xs \<Rightarrow> xs) @ cs))"

text \<open>
  The rows of tree \<open>T\<close> whose \<open>lft\<close> lies in the \<open>2n\<close> positions from \<open>l\<close> are the rows
  \<open>E\<close>; and a row \<open>x\<close> that is the closest enclosing row of everything from position
  \<open>l\<close> on for \<open>2n\<close> positions.
\<close>

definition region :: "table \<Rightarrow> int \<Rightarrow> int \<Rightarrow> nat \<Rightarrow> node list \<Rightarrow> bool" where
  "region t' T l n E \<longleftrightarrow>
     set E \<subseteq> set t' \<and>
     (\<forall>z \<in> set t'. tree_id z = T \<and> l \<le> lft z \<and> lft z \<le> l + 2 * int n - 1 \<longrightarrow> z \<in> set E)"

definition hangs :: "table \<Rightarrow> int \<Rightarrow> node \<Rightarrow> int \<Rightarrow> nat \<Rightarrow> bool" where
  "hangs t' T x l n \<longleftrightarrow>
     x \<in> set t' \<and> tree_id x = T \<and> 1 \<le> lft x \<and> lft x < l \<and> l + 2 * int n \<le> rgt x \<and>
     (\<forall>z \<in> set t'. tree_id z = T \<and> lft x \<le> lft z \<and> lft z < l \<and> z \<noteq> x \<longrightarrow> rgt z < l)"

text \<open>
  The row \<open>P\<close> after \<open>load_bulk\<close> has added the record trees \<open>prev\<close> below it: its right
  bound closes after them, their rows are the rows of its tree inside it, and the next
  key is the one after theirs.
\<close>

definition brood :: "table \<Rightarrow> node \<Rightarrow> rec list \<Rightarrow> bool" where
  "brood t P prev \<longleftrightarrow>
     rgt P = lft P + 1 + 2 * int (fsize prev) \<and>
     next_pk t = pk P + 1 + int (fsize prev) \<and>
     region t (tree_id P) (lft P + 1) (fsize prev)
       (enc_forest (tree_id P) (pk P + 1) (lft P + 1) (depth P + 1) prev)"

subsection \<open>Equality of records modulo ids\<close>

text \<open>
  A record with every \<open>id\<close> removed, and the records as \<open>dump_bulk\<close> writes them: a
  \<open>children\<close> entry, when present, is not empty.
\<close>

fun strip_ids :: "rec \<Rightarrow> rec" where
  "strip_ids (Rec dat ch i) = Rec dat (map_option (map strip_ids) ch) None"

fun normal_rec :: "rec \<Rightarrow> bool" where
  "normal_rec (Rec dat ch i) =
     (case ch of None \<Rightarrow> True | Some cs \<Rightarrow> cs \<noteq> [] \<and> list_all normal_rec cs)"

subsection \<open>Records in the order of a sorted model class\<close>

text \<open>
  A record tree whose siblings are in the order of the model class: no record is
  selected by the filter of \<open>get_sorted_pos_queryset\<close> for a sibling that follows it, at
  every level. \<open>in_key_order\<close> says it of the records \<open>cs\<close> still to add after their
  siblings \<open>prev\<close>, and holds of every list when the model class has no sort key.
\<close>

fun key_sorted :: "config \<Rightarrow> rec \<Rightarrow> bool" where
  "key_sorted cfg (Rec dat ch i) =
     (case ch of
        None \<Rightarrow> True
      | Some cs \<Rightarrow> sorted_wrt (\<lambda>a b. \<not> key_after cfg (rdata a) (rdata b)) cs \<and>
                   list_all (key_sorted cfg) cs)"

definition in_key_order :: "config \<Rightarrow> rec list \<Rightarrow> rec list \<Rightarrow> bool" where
  "in_key_order cfg prev cs \<longleftrightarrow>
     node_order_by cfg = [] \<or>
     (sorted_wrt (\<lambda>a b. \<not> key_after cfg (rdata a) (rdata b)) (prev @ cs) \<and>
      list_all (key_sorted cfg) cs)"

subsection \<open>Example tables\<close>

definition single_root :: node where
  "single_root = \<lparr>pk = 1, tree_id = 1, lft = 1, rgt = 2, depth = 1, payload = []\<rparr>"

definition root_a :: node where
  "root_a = \<lparr>pk = 1, tree_id = 1, lft = 1, rgt = 4, depth = 1, payload = []\<rparr>"

definition child_a :: node where
  "child_a = \<lparr>pk = 2, tree_id = 1, lft = 2, rgt = 3, depth = 2, payload = []\<rparr>"

definition root_b :: node where
  "root_b = \<lparr>pk = 3, tree_id = 2, lft = 1, rgt = 2, depth = 1, payload = []\<rparr>"

definition forest_ab :: table where
  "forest_ab = [root_a, child_a, root_b]"

definition row_with_id_field :: node where
  "row_with_id_field =
     \<lparr>pk = 7, tree_id = 1, lft = 1, rgt = 2, depth = 1,
      payload = [(''id'', IntV 7), (''n'', IntV 1)]\<rparr>"

text \<open>
  A model class sorted by the integer field \<open>n\<close>: a sibling is selected when its \<open>n\<close> is
  not less than the new node's. A root with two children in that order, and its dump.
\<close>

definition by_n_config :: config where
  "by_n_config =
     \<lparr>node_order_by = [''n''],
      key_after = (\<lambda>a b. case (map_of a ''n'', map_of b ''n'') of
                             (Some (IntV x), Some (IntV y)) \<Rightarrow> y \<le> x
                           | _ \<Rightarrow> False)\<rparr>"

definition root_n :: node where
  "root_n = \<lparr>pk = 1, tree_id = 1, lft = 1, rgt = 6, depth = 1, payload = [(''n'', IntV 0)]\<rparr>"

definition family_n :: table where
  "family_n =
     [root_n,
      \<lparr>pk = 2, tree_id = 1, lft = 2, rgt = 3, depth = 2, payload = [(''n'', IntV 1)]\<rparr>,
      \<lparr>pk = 3, tree_id = 1, lft = 4, rgt = 5, depth = 2, payload = [(''n'', IntV 2)]\<rparr>]"

definition dump_n :: rec where
  "dump_n =
     Rec [(''n'', IntV 0)]
       (Some [Rec [(''n'', IntV 1)] None (Some 2), Rec [(''n'', IntV 2)] None (Some 3)])
       (Some 1)"

section \<open>Properties\<close>

subsection \<open>Rows and statements\<close>

lemma filter_pk_unique:
  "distinct (map pk t) \<Longrightarrow> n \<in> set t \<Longrightarrow> filter (\<lambda>r. pk r = pk n) t = [n]"
proof (induction t)
  case Nil
  then show ?case by simp
next
  case (Cons a t)
  show ?case
  proof (cases "a = n")
    case True
    have "filter (\<lambda>r. pk r = pk n) t = []"
      using Cons.prems True by (auto simp: filter_empty_conv image_iff)
    then show ?thesis using True by simp
  next
    case False
    then have "n \<in> set t" using Cons.prems by simp
    moreover have "pk a \<noteq> pk n" using Cons.prems \<open>n \<in> set t\<close> by auto
    ultimately show ?thesis using Cons by simp
  qed
qed

lemma objects_get_unique:
  "distinct (map pk t) \<Longrightarrow> n \<in> set t \<Longrightarrow> objects_get t (pk n) = Inr n"
  by (simp add: objects_get_def filter_pk_unique)

lemma filter_pk_sql_update:
  assumes "\<And>r. pk (st r) = pk r"
  shows "filter (\<lambda>r. pk r = i) (sql_update wh st t)
           = map (\<lambda>r. if wh r then st r else r) (filter (\<lambda>r. pk r = i) t)"
  using assms by (induction t) (auto simp: sql_update_def)

lemma objects_get_sql_update:
  assumes "\<And>r. pk (st r) = pk r" and "distinct (map pk t)" and "n \<in> set t"
  shows "objects_get (sql_update wh st t) (pk n) = Inr (if wh n then st n else n)"
  using assms by (simp add: objects_get_def filter_pk_sql_update filter_pk_unique)

lemma mem_sql_update:
  "r \<in> set t \<Longrightarrow> r' = (if wh r then st r else r) \<Longrightarrow> r' \<in> set (sql_update wh st t)"
  by (auto simp: sql_update_def)

lemma not_descendant_of_self: "\<not> is_descendant_of n n"
  by (simp add: is_descendant_of_def)

subsection \<open>Moving a leaf below itself\<close>

lemma move_normalize_self_leaf:
  assumes "is_leaf n"
  shows "move_normalize cfg t n n LastChild = Inr (Some (Some n, n, LastChild))"
  using assms
  by (simp add: move_normalize_def child_norm_def is_descendant_of_def is_noop_def node_eq_def
      resolve_sorted_def norm_sibling_def)

lemma move_self_leaf:
  assumes "n \<in> set t" and "distinct (map pk t)" and "is_leaf n"
  shows "move cfg t n n LastChild =
     Inr (close_gap (lft n) (rgt n + 2) (tree_id n)
           (relocate (n\<lparr>rgt := rgt n + 2\<rparr>) (tree_id n) (rgt n) 1
             (move_right (tree_id n) (rgt n) False 2 t)))"
proof -
  have gap: "rgt n - lft n + 1 = 2" using assms(3) by (simp add: is_leaf_def)
  have "objects_get (move_right (tree_id n) (rgt n) False 2 t) (pk n)
          = Inr (n\<lparr>rgt := rgt n + 2\<rparr>)"
    unfolding move_right_def using assms(3)
    by (subst objects_get_sql_update[OF _ assms(2) assms(1)]) (simp_all add: is_leaf_def)
  then show ?thesis
    by (simp add: move_def move_normalize_self_leaf[OF assms(3)] open_hole_def gap)
qed

lemma move_self_leaf_row:
  assumes "n \<in> set t" and "is_leaf n"
  shows "n\<lparr>lft := lft n - 3, rgt := lft n, depth := depth n + 1\<rparr>
     \<in> set (close_gap (lft n) (rgt n + 2) (tree_id n)
           (relocate (n\<lparr>rgt := rgt n + 2\<rparr>) (tree_id n) (rgt n) 1
             (move_right (tree_id n) (rgt n) False 2 t)))"
proof -
  have r: "rgt n = lft n + 1" using assms(2) by (simp add: is_leaf_def)
  have 1: "n\<lparr>rgt := rgt n + 2\<rparr> \<in> set (move_right (tree_id n) (rgt n) False 2 t)"
    unfolding move_right_def by (rule mem_sql_update[OF assms(1)]) (simp add: r)
  have 2: "n\<lparr>lft := lft n + 1, rgt := rgt n + 3, depth := depth n + 1\<rparr>
             \<in> set (relocate (n\<lparr>rgt := rgt n + 2\<rparr>) (tree_id n) (rgt n) 1
                     (move_right (tree_id n) (rgt n) False 2 t))"
    unfolding relocate_def by (rule mem_sql_update[OF 1]) (simp add: r)
  show ?thesis
    unfolding close_gap_def by (rule mem_sql_update[OF 2]) (simp add: r)
qed

lemma move_self_leaf_mutates:
  assumes "n \<in> set t" and "distinct (map pk t)" and "is_leaf n"
  shows "\<exists>t'. move cfg t n n LastChild = Inr t' \<and> t' \<noteq> t"
proof -
  let ?t' = "close_gap (lft n) (rgt n + 2) (tree_id n)
           (relocate (n\<lparr>rgt := rgt n + 2\<rparr>) (tree_id n) (rgt n) 1
             (move_right (tree_id n) (rgt n) False 2 t))"
  let ?n' = "n\<lparr>lft := lft n - 3, rgt := lft n, depth := depth n + 1\<rparr>"
  have m: "move cfg t n n LastChild = Inr ?t'" by (rule move_self_leaf[OF assms])
  have in': "?n' \<in> set ?t'" by (rule move_self_leaf_row[OF assms(1) assms(3)])
  have "?t' \<noteq> t"
  proof
    assume eq: "?t' = t"
    then have "?n' \<in> set t" using in' by simp
    moreover have "pk ?n' = pk n" by simp
    ultimately have "?n' = n" using assms(1,2) by (meson distinct_map inj_onD)
    then have "depth ?n' = depth n" by simp
    then show False by simp
  qed
  then show ?thesis using m by blast
qed

subsection \<open>The literal scenarios S1 and S2\<close>

lemma scenario_root:
  "add_root cfg [] [(''n'', IntV 1)] =
     Inr ([\<lparr>pk = 1, tree_id = 1, lft = 1, rgt = 2, depth = 1, payload = [(''n'', IntV 1)]\<rparr>],
          \<lparr>pk = 1, tree_id = 1, lft = 1, rgt = 2, depth = 1, payload = [(''n'', IntV 1)]\<rparr>)"
  by (simp add: add_root_def get_last_root_node_def get_root_nodes_def objects_filter_def
      ordered_def last_opt_def insert_new_def new_pk_def next_pk_def new_payload_def
      reserved_def save_def Let_def)

lemma scenario_first_child:
  "add_child cfg
     [\<lparr>pk = 1, tree_id = 1, lft = 1, rgt = 2, depth = 1, payload = [(''n'', IntV 1)]\<rparr>]
     \<lparr>pk = 1, tree_id = 1, lft = 1, rgt = 2, depth = 1, payload = [(''n'', IntV 1)]\<rparr>
     [(''n'', IntV 2)] =
   Inr ([\<lparr>pk = 1, tree_id = 1, lft = 1, rgt = 4, depth = 1, payload = [(''n'', IntV 1)]\<rparr>,
         \<lparr>pk = 2, tree_id = 1, lft = 2, rgt = 3, depth = 2, payload = [(''n'', IntV 2)]\<rparr>],
        \<lparr>pk = 2, tree_id = 1, lft = 2, rgt = 3, depth = 2, payload = [(''n'', IntV 2)]\<rparr>,
        \<lparr>pk = 1, tree_id = 1, lft = 1, rgt = 4, depth = 1, payload = [(''n'', IntV 1)]\<rparr>)"
  by (simp add: add_child_def is_leaf_def move_right_def sql_update_def insert_new_def
      new_pk_def next_pk_def new_payload_def reserved_def save_def Let_def)

lemma scenario_second_child:
  "\<exists>t3 c2 r3.
     add_child cfg
       [\<lparr>pk = 1, tree_id = 1, lft = 1, rgt = 4, depth = 1, payload = [(''n'', IntV 1)]\<rparr>,
        \<lparr>pk = 2, tree_id = 1, lft = 2, rgt = 3, depth = 2, payload = [(''n'', IntV 2)]\<rparr>]
       \<lparr>pk = 1, tree_id = 1, lft = 1, rgt = 4, depth = 1, payload = [(''n'', IntV 1)]\<rparr>
       [(''n'', IntV 2)] = Inr (t3, c2, r3)
     \<and> map enc (ordered t3) = [(1, 1, 6, 1), (1, 2, 3, 2), (1, 4, 5, 2)]
     \<and> pk (hd (ordered t3)) = 1"
  by (cases "node_order_by cfg = []"; cases "key_after cfg [(''n'', IntV 2)] [(''n'', IntV 2)]")
     (simp_all add: add_child_def is_leaf_def get_last_child_def get_children_def
      get_descendants_def get_tree_def objects_filter_def ordered_def last_opt_def
      objects_get_def add_sibling_cached_def is_root_def resolve_sorted_def norm_sibling_def
      get_siblings_def get_parent_def get_ancestors_def get_sorted_pos_queryset_def
      node_eq_def move_right_def sql_update_def insert_new_def new_pk_def next_pk_def
      new_payload_def reserved_def save_def enc_def Let_def)


text \<open>
  Claim C5. From the empty table, \<open>add_root\<close> creates the single row
  \<open>(tree_id = 1, lft = 1, rgt = 2, depth = 1)\<close>; two calls of \<open>add_child\<close> on that
  root object then leave, in \<open>(tree_id, lft)\<close> order, the root at \<open>(1, 6)\<close> with depth
  1 and two children at \<open>(2, 3)\<close> and \<open>(4, 5)\<close> with depth 2. This holds for every model
  class, sorted or not.
\<close>

theorem scenario_root_with_two_children:
  "\<exists>t1 root t2 c1 root1 t3 c2 root2.
     add_root cfg [] [(''n'', IntV 1)] = Inr (t1, root) \<and>
     map enc t1 = [(1, 1, 2, 1)] \<and>
     add_child cfg t1 root [(''n'', IntV 2)] = Inr (t2, c1, root1) \<and>
     add_child cfg t2 root1 [(''n'', IntV 2)] = Inr (t3, c2, root2) \<and>
     map enc (ordered t3) = [(1, 1, 6, 1), (1, 2, 3, 2), (1, 4, 5, 2)] \<and>
     pk (hd (ordered t3)) = pk root"
proof -
  let ?r = "\<lparr>pk = 1, tree_id = 1, lft = 1, rgt = 2, depth = 1, payload = [(''n'', IntV 1)]\<rparr>"
  let ?r1 = "\<lparr>pk = 1, tree_id = 1, lft = 1, rgt = 4, depth = 1, payload = [(''n'', IntV 1)]\<rparr>"
  let ?c1 = "\<lparr>pk = 2, tree_id = 1, lft = 2, rgt = 3, depth = 2, payload = [(''n'', IntV 2)]\<rparr>"
  obtain t3 c2 r3 where
    3: "add_child cfg [?r1, ?c1] ?r1 [(''n'', IntV 2)] = Inr (t3, c2, r3)"
    and e: "map enc (ordered t3) = [(1, 1, 6, 1), (1, 2, 3, 2), (1, 4, 5, 2)]"
    and h: "pk (hd (ordered t3)) = 1"
    using scenario_second_child[of cfg] by auto
  have 1: "add_root cfg [] [(''n'', IntV 1)] = Inr ([?r], ?r)" by (rule scenario_root)
  have 2: "add_child cfg [?r] ?r [(''n'', IntV 2)] = Inr ([?r1, ?c1], ?c1, ?r1)"
    by (rule scenario_first_child)
  have m: "map enc [?r] = [(1, 1, 2, 1)]" by (simp add: enc_def)
  have h': "pk (hd (ordered t3)) = pk ?r" using h by simp
  show ?thesis
    apply (intro exI conjI)
         apply (rule 1)
        apply (rule m)
       apply (rule 2)
      apply (rule 3)
     apply (rule e)
    apply (rule h')
    done
qed

subsection \<open>Where \<open>InvalidMoveToDescendant\<close> comes from\<close>

lemma get_parent_not_imtd: "get_parent t n \<noteq> Inl InvalidMoveToDescendant"
  by (simp add: get_parent_def split: option.splits)

lemma get_siblings_not_imtd: "get_siblings t n \<noteq> Inl InvalidMoveToDescendant"
  using get_parent_not_imtd[of t n]
  by (auto simp add: get_siblings_def split: sum.splits option.splits)

lemma get_first_sibling_not_imtd: "get_first_sibling t n \<noteq> Inl InvalidMoveToDescendant"
  using get_siblings_not_imtd[of t n]
  by (auto simp add: get_first_sibling_def split: sum.splits option.splits)

lemma get_last_sibling_not_imtd: "get_last_sibling t n \<noteq> Inl InvalidMoveToDescendant"
  using get_siblings_not_imtd[of t n]
  by (auto simp add: get_last_sibling_def split: sum.splits option.splits)

lemma is_noop_not_imtd: "is_noop t s n p \<noteq> Inl InvalidMoveToDescendant"
  using get_first_sibling_not_imtd[of t n] get_last_sibling_not_imtd[of t n]
  by (auto simp add: is_noop_def split: sum.splits)

lemma resolve_sorted_not_imtd: "resolve_sorted cfg t n d p \<noteq> Inl InvalidMoveToDescendant"
  using get_siblings_not_imtd[of t n]
  by (auto simp add: resolve_sorted_def split: sum.splits list.splits)

lemma norm_sibling_not_imtd: "norm_sibling t n p \<noteq> Inl InvalidMoveToDescendant"
  using get_siblings_not_imtd[of t n]
  by (auto simp add: norm_sibling_def Let_def split: sum.splits prod.splits)

lemma open_hole_not_imtd: "open_hole t s par n p \<noteq> Inl InvalidMoveToDescendant"
  using get_siblings_not_imtd[of t n] get_parent_not_imtd[of t n]
  by (auto simp add: open_hole_def Let_def split: sum.splits option.splits)

lemma objects_get_not_imtd: "objects_get t i \<noteq> Inl InvalidMoveToDescendant"
  by (simp add: objects_get_def split: list.splits)

lemma move_normalize_imtd:
  assumes "move_normalize cfg t self target p = Inl InvalidMoveToDescendant"
  shows "\<exists>par t1 p1. child_norm t target p = Inr (par, t1, p1) \<and> is_descendant_of t1 self"
proof (cases "child_norm t target p")
  case (Inl e)
  then have "e = InvalidMoveToDescendant" using assms by (simp add: move_normalize_def)
  then show ?thesis using Inl by (auto simp: child_norm_def split: if_splits option.splits)
next
  case (Inr x)
  obtain par t1 p1 where x: "x = (par, t1, p1)" by (cases x) auto
  show ?thesis
  proof (cases "is_descendant_of t1 self")
    case True
    then show ?thesis using Inr x by blast
  next
    case False
    then have False
      using assms Inr x is_noop_not_imtd[of t self t1 p1]
        resolve_sorted_not_imtd[of cfg t t1 "payload self" p1] norm_sibling_not_imtd[of t]
      by (auto simp: move_normalize_def split: sum.splits bool.splits prod.splits)
    then show ?thesis ..
  qed
qed

lemma move_imtd:
  assumes "move cfg t self target p = Inl (InvalidMoveToDescendant, t')"
  shows "\<exists>par t1 p1. child_norm t target p = Inr (par, t1, p1) \<and> is_descendant_of t1 self"
proof -
  have "move_normalize cfg t self target p = Inl InvalidMoveToDescendant"
    using assms open_hole_not_imtd objects_get_not_imtd
    by (auto simp: move_def Let_def split: sum.splits option.splits prod.splits)
  then show ?thesis by (rule move_normalize_imtd)
qed

text \<open>
  Claim C9. \<open>is_descendant_of n n\<close> is false for every node, the comparisons being
  strict. So \<open>move\<close> never raises \<open>InvalidMoveToDescendant\<close> when the pivot that the
  child tokens normalize to is \<open>self\<close>; and for a leaf \<open>n\<close> of a table with unique
  primary keys, \<open>move n n 'last-child'\<close> passes the guard, is not one of the cases of
  the early return, and returns a table different from the one it started from.
\<close>

theorem move_leaf_below_itself:
  "(\<not> is_descendant_of n n) \<and>
   (\<forall>par p1. child_norm t target p = Inr (par, n, p1) \<longrightarrow>
      (\<forall>t'. move cfg t n target p \<noteq> Inl (InvalidMoveToDescendant, t'))) \<and>
   (n \<in> set t \<and> distinct (map pk t) \<and> is_leaf n \<longrightarrow>
      move_normalize cfg t n n LastChild = Inr (Some (Some n, n, LastChild)) \<and>
      (\<exists>t'. move cfg t n n LastChild = Inr t' \<and> t' \<noteq> t))"
proof (intro conjI allI impI)
  show "\<not> is_descendant_of n n" by (rule not_descendant_of_self)
next
  fix par p1 t'
  assume c: "child_norm t target p = Inr (par, n, p1)"
  show "move cfg t n target p \<noteq> Inl (InvalidMoveToDescendant, t')"
  proof
    assume "move cfg t n target p = Inl (InvalidMoveToDescendant, t')"
    from move_imtd[OF this] c have "is_descendant_of n n" by auto
    then show False by (simp add: not_descendant_of_self)
  qed
next
  assume "n \<in> set t \<and> distinct (map pk t) \<and> is_leaf n"
  then show "move_normalize cfg t n n LastChild = Inr (Some (Some n, n, LastChild))"
    by (simp add: move_normalize_self_leaf)
next
  assume "n \<in> set t \<and> distinct (map pk t) \<and> is_leaf n"
  then show "\<exists>t'. move cfg t n n LastChild = Inr t' \<and> t' \<noteq> t"
    by (simp add: move_self_leaf_mutates)
qed

theorem move_leaf_below_itself_witness:
  "single_root \<in> set [single_root] \<and> distinct (map pk [single_root]) \<and> is_leaf single_root \<and>
   child_norm [single_root] single_root LastChild = Inr (Some single_root, single_root, LastChild) \<and>
   move default_config [single_root] single_root single_root LastChild
     = Inr [single_root\<lparr>lft := - 2, rgt := 1, depth := 2\<rparr>] \<and>
   (\<forall>t'. move default_config [single_root] single_root single_root LastChild
           \<noteq> Inl (InvalidMoveToDescendant, t'))"
  using move_leaf_below_itself[of single_root "[single_root]" single_root LastChild default_config]
  by (simp add: single_root_def is_leaf_def child_norm_def move_def move_normalize_def
      is_descendant_of_def is_noop_def node_eq_def resolve_sorted_def norm_sibling_def
      open_hole_def move_right_def sql_update_def objects_get_def relocate_def close_gap_def)

text \<open>
  Claim C1, at the input where the code breaks it. The table with the single root
  \<open>(1, 2)\<close> satisfies the contiguity invariant; \<open>move root root 'last-child'\<close> returns
  the table whose only row has \<open>lft = -2\<close>, \<open>rgt = 1\<close> and depth 2, so the bounds of
  tree 1 are no longer \<open>{1, 2}\<close>.
\<close>

theorem move_leaf_below_itself_breaks_bounds:
  "contiguous_tree [single_root] 1 \<and>
   move cfg [single_root] single_root single_root LastChild
     = Inr [single_root\<lparr>lft := - 2, rgt := 1, depth := 2\<rparr>] \<and>
   tree_bounds [single_root\<lparr>lft := - 2, rgt := 1, depth := 2\<rparr>] 1 = {#- 2, 1#} \<and>
   \<not> contiguous_tree [single_root\<lparr>lft := - 2, rgt := 1, depth := 2\<rparr>] 1"
  by (simp add: single_root_def is_leaf_def child_norm_def move_def move_normalize_def
      is_descendant_of_def is_noop_def node_eq_def resolve_sorted_def norm_sibling_def
      open_hole_def move_right_def sql_update_def objects_get_def relocate_def close_gap_def
      contiguous_tree_def tree_bounds_def tree_rows_def upto.simps)

subsection \<open>The guard and the early return of \<open>move\<close>\<close>

text \<open>
  Claim C3. When the pivot that the child tokens normalize to is a descendant of
  \<open>self\<close>, \<open>move\<close> raises \<open>InvalidMoveToDescendant\<close>, and the table at that moment is
  the table it was called with: no statement has been executed.
\<close>

theorem move_to_descendant_rejected:
  assumes "child_norm t target0 pos0 = Inr (parent, target, p)"
    and "is_descendant_of target self"
  shows "move cfg t self target0 pos0 = Inl (InvalidMoveToDescendant, t)"
  using assms by (simp add: move_def move_normalize_def)

theorem move_to_descendant_rejected_witness:
  "child_norm [root_a, child_a] root_a FirstChild = Inr (None, child_a, FirstSibling) \<and>
   is_descendant_of child_a root_a \<and>
   move default_config [root_a, child_a] root_a root_a FirstChild
     = Inl (InvalidMoveToDescendant, [root_a, child_a])"
proof -
  have c: "child_norm [root_a, child_a] root_a FirstChild = Inr (None, child_a, FirstSibling)"
    by (simp add: child_norm_def is_leaf_def root_a_def child_a_def get_last_child_def
        get_children_def get_descendants_def get_tree_def objects_filter_def ordered_def
        last_opt_def)
  have d: "is_descendant_of child_a root_a"
    by (simp add: is_descendant_of_def root_a_def child_a_def)
  show ?thesis
    using c d move_to_descendant_rejected[OF c d, of default_config] by simp
qed

text \<open>
  Claim C8. \<open>move\<close> of a node relative to itself returns the table unchanged when the
  position is \<open>left\<close>, or \<open>right\<close> or \<open>last-sibling\<close> and the node is its own last
  sibling, or \<open>first-sibling\<close> and the node is its own first sibling.
\<close>

theorem move_noop:
  assumes "p = Left \<or>
           ((p = Right \<or> p = LastSibling) \<and>
              (\<exists>s. get_last_sibling t n = Inr s \<and> node_eq n s)) \<or>
           (p = FirstSibling \<and> (\<exists>f. get_first_sibling t n = Inr f \<and> node_eq n f))"
  shows "move cfg t n n p = Inr t"
proof -
  have c: "child_norm t n p = Inr (None, n, p)"
    using assms by (auto simp: child_norm_def)
  have "is_noop t n n p = Inr True"
    using assms by (auto simp: is_noop_def node_eq_def)
  then show ?thesis
    by (simp add: move_def move_normalize_def c not_descendant_of_self)
qed

theorem move_noop_witness:
  "get_last_sibling [root_a, child_a] child_a = Inr child_a \<and> node_eq child_a child_a \<and>
   move default_config [root_a, child_a] child_a child_a Right = Inr [root_a, child_a] \<and>
   move default_config [root_a, child_a] child_a child_a LastSibling = Inr [root_a, child_a] \<and>
   move default_config [root_a, child_a] child_a child_a FirstSibling = Inr [root_a, child_a] \<and>
   move default_config [root_a, child_a] child_a child_a Left = Inr [root_a, child_a]"
proof -
  have sib: "get_siblings [root_a, child_a] child_a = Inr [child_a]"
    by (simp add: get_siblings_def get_parent_def is_root_def get_ancestors_def
        objects_filter_def ordered_def last_opt_def get_children_def get_descendants_def
        is_leaf_def get_tree_def root_a_def child_a_def)
  have l: "get_last_sibling [root_a, child_a] child_a = Inr child_a"
    by (simp add: get_last_sibling_def sib last_opt_def)
  have f: "get_first_sibling [root_a, child_a] child_a = Inr child_a"
    by (simp add: get_first_sibling_def sib first_opt_def)
  have e: "node_eq child_a child_a" by (simp add: node_eq_def)
  show ?thesis
    using l e
      move_noop[of Right "[root_a, child_a]" child_a default_config]
      move_noop[of LastSibling "[root_a, child_a]" child_a default_config]
      move_noop[of FirstSibling "[root_a, child_a]" child_a default_config]
      move_noop[of Left "[root_a, child_a]" child_a default_config] f
    by simp
qed

subsection \<open>Delete with the removed ranges supplied\<close>

lemma close_gap_rows:
  "close_gap drop_lft drop_rgt tid t =
     map (\<lambda>r. r\<lparr>lft := (if tree_id r = tid \<and> lft r > drop_lft
                          then lft r - (drop_rgt - drop_lft + 1) else lft r),
                 rgt := (if tree_id r = tid \<and> rgt r > drop_lft
                          then rgt r - (drop_rgt - drop_lft + 1) else rgt r)\<rparr>) t"
  by (simp add: close_gap_def sql_update_def)

text \<open>
  Claim C4. With \<open>removed_ranges\<close> supplied, \<open>delete\<close> removes the selected rows and
  then closes one gap per range, the ranges taken in descending order; and
  \<open>close_gap\<close> subtracts the width \<open>drop_rgt - drop_lft + 1\<close> from each \<open>lft\<close> and each
  \<open>rgt\<close> of the tree that is greater than \<open>drop_lft\<close>, and changes nothing else.
\<close>

theorem delete_hot_closes_gaps:
  "(\<exists>order. mset order = mset removed_ranges \<and> sorted_wrt (\<lambda>a b. a \<ge> b) order \<and>
      delete q (Some removed_ranges) t =
        foldl (\<lambda>t' rg. case rg of (tid, drop_lft, drop_rgt) \<Rightarrow> close_gap drop_lft drop_rgt tid t')
          (filter (\<lambda>r. \<not> q r) t) order) \<and>
   close_gap drop_lft drop_rgt tid t =
     map (\<lambda>r. r\<lparr>lft := (if tree_id r = tid \<and> lft r > drop_lft
                          then lft r - (drop_rgt - drop_lft + 1) else lft r),
                 rgt := (if tree_id r = tid \<and> rgt r > drop_lft
                          then rgt r - (drop_rgt - drop_lft + 1) else rgt r)\<rparr>) t"
proof
  have s: "sorted_wrt (\<lambda>a b. a \<ge> b) (sorted_reverse removed_ranges)"
    unfolding sorted_reverse_def sorted_wrt_rev by simp
  have m: "mset (sorted_reverse removed_ranges) = mset removed_ranges"
    by (simp add: sorted_reverse_def)
  have d: "delete q (Some removed_ranges) t =
        foldl (\<lambda>t' rg. case rg of (tid, drop_lft, drop_rgt) \<Rightarrow> close_gap drop_lft drop_rgt tid t')
          (filter (\<lambda>r. \<not> q r) t) (sorted_reverse removed_ranges)"
    by (simp add: delete_def delete_hot_def close_range_def[abs_def])
  show "\<exists>order. mset order = mset removed_ranges \<and> sorted_wrt (\<lambda>a b. a \<ge> b) order \<and>
      delete q (Some removed_ranges) t =
        foldl (\<lambda>t' rg. case rg of (tid, drop_lft, drop_rgt) \<Rightarrow> close_gap drop_lft drop_rgt tid t')
          (filter (\<lambda>r. \<not> q r) t) order"
    using s m d by blast
  show "close_gap drop_lft drop_rgt tid t =
     map (\<lambda>r. r\<lparr>lft := (if tree_id r = tid \<and> lft r > drop_lft
                          then lft r - (drop_rgt - drop_lft + 1) else lft r),
                 rgt := (if tree_id r = tid \<and> rgt r > drop_lft
                          then rgt r - (drop_rgt - drop_lft + 1) else rgt r)\<rparr>) t"
    by (rule close_gap_rows)
qed


subsection \<open>The relocation statement of \<open>move\<close>\<close>

lemma last_opt_eq: "last_opt xs = (if xs = [] then None else Some (last xs))"
  by (cases xs rule: rev_cases) (simp_all add: last_opt_def)

lemma resolve_sorted_pos:
  "resolve_sorted cfg t n d p = Inr (n', p') \<Longrightarrow> (p' = LastChild \<longleftrightarrow> p = LastChild)"
  by (auto simp: resolve_sorted_def split: if_splits sum.splits list.splits)

lemma norm_sibling_pos:
  "norm_sibling t n p = Inr (n', p') \<Longrightarrow> (p' = LastChild \<longleftrightarrow> p = LastChild)"
  by (auto simp: norm_sibling_def Let_def split: if_splits sum.splits)

lemma child_norm_parent:
  "child_norm t n p = Inr (parent, n', p') \<Longrightarrow> (parent \<noteq> None \<longleftrightarrow> p' = LastChild)"
  by (cases p) (auto simp: child_norm_def split: if_splits option.splits)

lemma move_normalize_parent:
  assumes "move_normalize cfg t self target0 pos0 = Inr (Some (parent, target, p))"
  shows "parent \<noteq> None \<longleftrightarrow> p = LastChild"
proof -
  obtain target1 p1 where c: "child_norm t target0 pos0 = Inr (parent, target1, p1)"
    using assms
    by (auto simp: move_normalize_def split: sum.splits prod.splits if_splits bool.splits)
  obtain target2 p2 where r: "resolve_sorted cfg t target1 (payload self) p1 = Inr (target2, p2)"
    and n: "norm_sibling t target2 p2 = Inr (target, p)"
    using assms c
    by (auto simp: move_normalize_def split: sum.splits prod.splits if_splits bool.splits)
  show ?thesis
    using child_norm_parent[OF c] resolve_sorted_pos[OF r] norm_sibling_pos[OF n] by simp
qed

lemma sorted_le_last: "sorted ys \<Longrightarrow> y \<in> set ys \<Longrightarrow> y \<le> last ys"
  by (induction ys rule: rev_induct) (auto simp: sorted_append)

lemma sorted_key_last:
  assumes "sorted (map f xs)" and "x \<in> set xs"
  shows "f x \<le> f (last xs)"
proof -
  have "xs \<noteq> []" using assms(2) by auto
  moreover have "f x \<in> set (map f xs)" using assms(2) by simp
  ultimately show ?thesis
    using sorted_le_last[OF assms(1), of "f x"] by (simp add: last_map)
qed

lemma last_root_max:
  assumes "every_tree_has_root t" and "get_root_nodes t \<noteq> []"
  shows "tree_id (last (get_root_nodes t)) = Max (tree_id ` set t)"
proof (rule sym, rule Max_eqI)
  show "finite (tree_id ` set t)" by simp
next
  have "last (get_root_nodes t) \<in> set (get_root_nodes t)" using assms(2) by simp
  then show "tree_id (last (get_root_nodes t)) \<in> tree_id ` set t"
    by (auto simp: get_root_nodes_def objects_filter_def ordered_def)
next
  fix y assume "y \<in> tree_id ` set t"
  then obtain r where r: "r \<in> set t" "y = tree_id r" by auto
  then obtain r' where r': "r' \<in> set t" "tree_id r' = tree_id r" "lft r' = 1"
    using assms(1) by (auto simp: every_tree_has_root_def list_all_iff list_ex_iff)
  then have "r' \<in> set (get_root_nodes t)"
    by (simp add: get_root_nodes_def objects_filter_def ordered_def)
  moreover have "sorted (map (\<lambda>r. (tree_id r, lft r)) (get_root_nodes t))"
    by (simp add: get_root_nodes_def objects_filter_def ordered_def)
  ultimately have "(tree_id r', lft r') \<le> (tree_id (last (get_root_nodes t)), lft (last (get_root_nodes t)))"
    by (rule sorted_key_last[rotated])
  then have "tree_id r' \<le> tree_id (last (get_root_nodes t))"
    by (auto simp: less_eq_prod_def)
  then show "y \<le> tree_id (last (get_root_nodes t))" using r r' by simp
qed

lemma open_hole_root_last_sibling:
  assumes "open_hole t self parent target LastSibling = Inr (newpos, target_tree, t1)"
    and "is_root target" and "every_tree_has_root t"
  shows "newpos = 1 \<and> t1 = t \<and> target_tree = Max (tree_id ` set t) + 1"
proof -
  have s: "get_siblings t target = Inr (get_root_nodes t)"
    using assms(2) by (simp add: get_siblings_def is_root_def)
  have ne: "get_root_nodes t \<noteq> []"
    using assms(1,2) by (auto simp: open_hole_def s last_opt_eq Let_def split: if_splits)
  have "newpos = 1 \<and> t1 = t \<and> target_tree = tree_id (last (get_root_nodes t)) + 1"
    using assms(1,2) ne by (auto simp: open_hole_def s last_opt_eq Let_def)
  then show ?thesis using last_root_max[OF assms(3) ne] by simp
qed

text \<open>
  Claim C2. Once \<open>move\<close> has normalized the position to \<open>p\<close> against the pivot
  \<open>target\<close>, opened the hole (table \<open>t1\<close>) and read \<open>self\<close> again (\<open>fromobj\<close>), its result is
  the gap closed on the table in which exactly the rows of \<open>fromobj\<close>'s tree with \<open>lft\<close>
  between \<open>fromobj.lft\<close> and \<open>fromobj.rgt\<close> have \<open>tree_id\<close> set to \<open>target_tree\<close>, \<open>lft\<close> and
  \<open>rgt\<close> shifted by \<open>newpos - fromobj.lft\<close>, and \<open>depth\<close> shifted by
  \<open>target.depth - fromobj.depth\<close> plus 1 exactly when \<open>p\<close> is \<open>last-child\<close>. For a root
  pivot and \<open>last-sibling\<close>, in a table where every tree has its root row, no hole is
  opened, \<open>newpos\<close> is 1 and \<open>target_tree\<close> is the greatest \<open>tree_id\<close> in use plus one.
\<close>

theorem move_relocation:
  assumes "move_normalize cfg t self target0 pos0 = Inr (Some (parent, target, p))"
    and "open_hole t self parent target p = Inr (newpos, target_tree, t1)"
    and "objects_get t1 (pk self) = Inr fromobj"
  shows "move cfg t self target0 pos0 =
           Inr (close_gap (lft fromobj) (rgt fromobj) (tree_id fromobj)
                 (map (\<lambda>r. if tree_id r = tree_id fromobj \<and>
                               lft fromobj \<le> lft r \<and> lft r \<le> rgt fromobj
                            then r\<lparr>tree_id := target_tree,
                                    lft := lft r + (newpos - lft fromobj),
                                    rgt := rgt r + (newpos - lft fromobj),
                                    depth := depth r + (depth target - depth fromobj
                                               + (if p = LastChild then 1 else 0))\<rparr>
                            else r) t1)) \<and>
         (is_root target \<and> p = LastSibling \<and> every_tree_has_root t \<longrightarrow>
            newpos = 1 \<and> t1 = t \<and> target_tree = Max (tree_id ` set t) + 1)"
proof
  have b: "(if parent \<noteq> None then 1 else 0) = (if p = LastChild then 1 else (0::int))"
    using move_normalize_parent[OF assms(1)] by simp
  show "move cfg t self target0 pos0 =
           Inr (close_gap (lft fromobj) (rgt fromobj) (tree_id fromobj)
                 (map (\<lambda>r. if tree_id r = tree_id fromobj \<and>
                               lft fromobj \<le> lft r \<and> lft r \<le> rgt fromobj
                            then r\<lparr>tree_id := target_tree,
                                    lft := lft r + (newpos - lft fromobj),
                                    rgt := rgt r + (newpos - lft fromobj),
                                    depth := depth r + (depth target - depth fromobj
                                               + (if p = LastChild then 1 else 0))\<rparr>
                            else r) t1))"
    unfolding move_def assms(1) using assms(2,3) b
    by (simp add: relocate_def sql_update_def)
next
  show "is_root target \<and> p = LastSibling \<and> every_tree_has_root t \<longrightarrow>
          newpos = 1 \<and> t1 = t \<and> target_tree = Max (tree_id ` set t) + 1"
    using assms(2) open_hole_root_last_sibling by blast
qed


lemmas fixture_defs = forest_ab_def root_a_def child_a_def root_b_def

theorem move_relocation_witness:
  "move_normalize default_config forest_ab child_a root_b LastSibling
     = Inr (Some (None, root_b, LastSibling)) \<and>
   open_hole forest_ab child_a None root_b LastSibling = Inr (1, 3, forest_ab) \<and>
   objects_get forest_ab (pk child_a) = Inr child_a \<and>
   is_root root_b \<and> every_tree_has_root forest_ab \<and>
   Max (tree_id ` set forest_ab) + 1 = 3 \<and>
   move default_config forest_ab child_a root_b LastSibling
     = Inr [root_a\<lparr>rgt := 2\<rparr>, child_a\<lparr>tree_id := 3, lft := 1, rgt := 2, depth := 1\<rparr>, root_b] \<and>
   move_normalize default_config forest_ab child_a root_b LastChild
     = Inr (Some (Some root_b, root_b, LastChild)) \<and>
   move default_config forest_ab child_a root_b LastChild
     = Inr [root_a\<lparr>rgt := 2\<rparr>, child_a\<lparr>tree_id := 2, lft := 2, rgt := 3, depth := 2\<rparr>,
            root_b\<lparr>rgt := 4\<rparr>]"
proof -
  have n1: "move_normalize default_config forest_ab child_a root_b LastSibling
              = Inr (Some (None, root_b, LastSibling))"
    by (simp add: move_normalize_def child_norm_def is_descendant_of_def is_noop_def node_eq_def
        resolve_sorted_def norm_sibling_def fixture_defs)
  have s: "get_siblings forest_ab root_b = Inr [root_a, root_b]"
    by (simp add: get_siblings_def get_root_nodes_def objects_filter_def ordered_def
        fixture_defs)
  have h1: "open_hole forest_ab child_a None root_b LastSibling = Inr (1, 3, forest_ab)"
    by (simp add: open_hole_def s last_opt_def Let_def)
       (simp add: is_root_def fixture_defs)
  have g1: "objects_get forest_ab (pk child_a) = Inr child_a"
    by (simp add: objects_get_def fixture_defs)
  have r: "is_root root_b" by (simp add: is_root_def root_b_def)
  have e: "every_tree_has_root forest_ab"
    by (simp add: every_tree_has_root_def fixture_defs)
  have n2: "move_normalize default_config forest_ab child_a root_b LastChild
              = Inr (Some (Some root_b, root_b, LastChild))"
    by (simp add: move_normalize_def child_norm_def is_leaf_def is_descendant_of_def is_noop_def
        node_eq_def resolve_sorted_def norm_sibling_def fixture_defs)
  have h2: "open_hole forest_ab child_a (Some root_b) root_b LastChild
              = Inr (2, 2, [root_a, child_a, root_b\<lparr>rgt := 4\<rparr>])"
    by (simp add: open_hole_def Let_def move_right_def sql_update_def fixture_defs)
  have g2: "objects_get [root_a, child_a, root_b\<lparr>rgt := 4\<rparr>] (pk child_a) = Inr child_a"
    by (simp add: objects_get_def fixture_defs)
  have m1: "move default_config forest_ab child_a root_b LastSibling
     = Inr [root_a\<lparr>rgt := 2\<rparr>, child_a\<lparr>tree_id := 3, lft := 1, rgt := 2, depth := 1\<rparr>, root_b]"
    using move_relocation[OF n1 h1 g1]
    by (simp add: close_gap_def sql_update_def fixture_defs)
  have x: "Max (tree_id ` set forest_ab) + 1 = 3"
    using move_relocation[OF n1 h1 g1] r e by simp
  have m2: "move default_config forest_ab child_a root_b LastChild
     = Inr [root_a\<lparr>rgt := 2\<rparr>, child_a\<lparr>tree_id := 2, lft := 2, rgt := 3, depth := 2\<rparr>,
            root_b\<lparr>rgt := 4\<rparr>]"
    using move_relocation[OF n2 h2 g2]
    by (simp add: close_gap_def sql_update_def fixture_defs)
  show ?thesis using n1 h1 g1 r e x m1 n2 m2 by simp
qed

subsection \<open>What \<open>dump_bulk\<close> leaves in \<open>data\<close>\<close>

lemma dump_fields_keys: "set reserved \<inter> fst ` set (dump_fields r) = {}"
  by (auto simp: dump_fields_def del_key_def reserved_def Let_def)

lemma clean_append_child:
  "clean_rec k (untag c) \<Longrightarrow> clean_rec k (untag tr) \<Longrightarrow> clean_rec k (untag (append_child a c tr))"
proof (induction a c tr rule: append_child.induct)
  case (1 a c b d ch i)
  show ?case
  proof (cases ch)
    case None
    then show ?thesis using 1 by simp
  next
    case (Some cs)
    have "list_all (\<lambda>x. clean_rec k (untag x)) cs"
      using 1(3) Some by (simp add: list_all_iff)
    then have "a \<noteq> b \<Longrightarrow> list_all (\<lambda>x. clean_rec k (untag (append_child a c x))) cs"
      using 1(1)[OF _ Some _ 1(2)] by (auto simp: list_all_iff)
    then show ?thesis using 1 Some by (auto simp: list_all_iff)
  qed
qed

lemma dump_step_clean:
  assumes "dump_step t parent k st pyobj = Inr st'"
    and "list_all (\<lambda>x. clean_rec k (untag x)) (ret st)"
  shows "list_all (\<lambda>x. clean_rec k (untag x)) (ret st')"
proof -
  let ?new = "TRec (created st) (dump_fields pyobj) None (if k then Some (pk pyobj) else None)"
  have n: "clean_rec k (untag ?new)" by (simp add: dump_fields_keys)
  show ?thesis
    using assms n clean_append_child[OF n]
    by (auto simp: dump_step_def Let_def list_all_iff split: if_splits sum.splits option.splits)
qed

lemma dump_loop_clean:
  "dump_loop t parent k st qset = Inr st' \<Longrightarrow>
   list_all (\<lambda>x. clean_rec k (untag x)) (ret st) \<Longrightarrow>
   list_all (\<lambda>x. clean_rec k (untag x)) (ret st')"
proof (induction qset arbitrary: st)
  case Nil
  then show ?case by simp
next
  case (Cons pyobj qset)
  then obtain st1 where s: "dump_step t parent k st pyobj = Inr st1"
    and l: "dump_loop t parent k st1 qset = Inr st'"
    by (auto split: sum.splits)
  show ?case by (rule Cons.IH[OF l dump_step_clean[OF s Cons.prems(2)]])
qed

text \<open>
  Claim C10. Every record \<open>dump_bulk\<close> returns, at every depth, has no \<open>id\<close> key in its
  \<open>data\<close> (nor any of the four encoding columns), whatever the rows hold, and has the
  top-level \<open>id\<close> exactly when \<open>keep_ids\<close> is true.
\<close>

theorem dump_bulk_strips_id:
  assumes "dump_bulk t parent keep_ids = Inr recs"
  shows "list_all (clean_rec keep_ids) recs"
proof -
  obtain st where l: "dump_loop t parent keep_ids \<lparr>ret = [], lnk = [], created = 0\<rparr>
                        (get_tree t parent) = Inr st"
    and r: "recs = map untag (ret st)"
    using assms by (auto simp: dump_bulk_def split: sum.splits)
  have "list_all (\<lambda>x. clean_rec keep_ids (untag x)) (ret st)"
    using dump_loop_clean[OF l] by simp
  then show ?thesis using r by (simp add: list_all_iff)
qed

theorem dump_bulk_strips_id_witness:
  "dump_bulk [row_with_id_field] None True = Inr [Rec [(''n'', IntV 1)] None (Some 7)] \<and>
   list_all (clean_rec True) [Rec [(''n'', IntV 1)] None (Some 7)] \<and>
   dump_bulk [row_with_id_field] None False = Inr [Rec [(''n'', IntV 1)] None None] \<and>
   list_all (clean_rec False) [Rec [(''n'', IntV 1)] None None]"
proof -
  have 1: "dump_bulk [row_with_id_field] None True = Inr [Rec [(''n'', IntV 1)] None (Some 7)]"
    by (simp add: dump_bulk_def get_tree_def objects_filter_def ordered_def dump_step_def
        dump_fields_def serialize_fields_def del_key_def row_with_id_field_def Let_def)
  have 2: "dump_bulk [row_with_id_field] None False = Inr [Rec [(''n'', IntV 1)] None None]"
    by (simp add: dump_bulk_def get_tree_def objects_filter_def ordered_def dump_step_def
        dump_fields_def serialize_fields_def del_key_def row_with_id_field_def Let_def)
  show ?thesis
    using 1 2 dump_bulk_strips_id[OF 1] dump_bulk_strips_id[OF 2] by simp
qed


subsection \<open>The ids of the nodes \<open>load_bulk\<close> creates\<close>

lemma insert_new_pk:
  "insert_new t kwargs tid l r d = (t', n) \<Longrightarrow> map_of kwargs ''id'' = Some (IntV j) \<Longrightarrow> pk n = j"
  by (auto simp: insert_new_def new_pk_def Let_def)

lemma add_sibling_cached_pk:
  assumes "add_sibling_cached cfg t c s p kwargs = Inr (t', n)"
    and "map_of kwargs ''id'' = Some (IntV j)"
  shows "pk n = j"
  using assms unfolding add_sibling_cached_def Let_def
  by (auto split: if_splits sum.splits prod.splits option.splits dest: insert_new_pk)

lemma add_root_pk:
  assumes "add_root cfg t kwargs = Inr (t', n)" and "map_of kwargs ''id'' = Some (IntV j)"
  shows "pk n = j"
  using assms add_sibling_cached_pk[of cfg t None _ SortedSibling kwargs t' n j]
  by (auto simp: add_root_def add_sibling_def insert_new_pk split: option.splits if_splits)

lemma add_child_pk:
  assumes "add_child cfg t s kwargs = Inr (t', n, s')" and "map_of kwargs ''id'' = Some (IntV j)"
  shows "pk n = j"
  using assms add_sibling_cached_pk[of cfg t "Some s" _ _ kwargs t' n j]
  by (auto simp: add_child_def Let_def insert_new_pk
      split: option.splits if_splits sum.splits prod.splits)

lemma load_one_pk:
  assumes "load_one cfg keep t parent_id r = Inr (t', n)"
  shows "created_id_ok keep r (pk n)"
proof -
  obtain kwargs where k: "node_data keep r = Inr kwargs"
    and c: "(\<exists>s s'. add_child cfg t s kwargs = Inr (t', n, s')) \<or> add_root cfg t kwargs = Inr (t', n)"
    using assms
    by (auto simp: load_one_def split: sum.splits option.splits if_splits prod.splits)
  have p: "\<And>j. map_of kwargs ''id'' = Some (IntV j) \<Longrightarrow> pk n = j"
    using c add_child_pk add_root_pk by blast
  show ?thesis
  proof (cases keep)
    case True
    then obtain i where "rid r = Some i" "kwargs = (''id'', IntV i) # rdata r"
      using k by (auto simp: node_data_def split: option.splits)
    then show ?thesis using p[of i] True by (simp add: created_id_ok_def)
  next
    case False
    then have "kwargs = rdata r" using k by (simp add: node_data_def)
    then show ?thesis using p False
      by (auto simp: created_id_ok_def split: option.splits val.splits)
  qed
qed

lemma preorder_push_children:
  "preorder r @ concat (map (\<lambda>x. preorder (snd x)) st)
     = r # concat (map (\<lambda>x. preorder (snd x)) (push_children i r st))"
  by (cases r) (simp add: push_children_def comp_def split: option.splits)

lemma load_loop_ids:
  "load_loop cfg keep st t added = Inr (t', added') \<Longrightarrow>
   \<exists>ids. added' = added @ ids \<and>
         list_all2 (created_id_ok keep) (concat (map (\<lambda>x. preorder (snd x)) st)) ids"
proof (induction cfg keep st t added rule: load_loop.induct)
  case (1 cfg keep_ids t added)
  then show ?case by simp
next
  case (2 cfg keep_ids parent_id node_struct st t added)
  from "2.prems" obtain t1 n where
    o: "load_one cfg keep_ids t parent_id node_struct = Inr (t1, n)"
    and l: "load_loop cfg keep_ids (push_children (pk n) node_struct st) t1 (added @ [pk n])
              = Inr (t', added')"
    by (auto split: sum.splits)
  from "2.IH"[OF o refl l] obtain ids where
    i: "added' = (added @ [pk n]) @ ids"
    and a: "list_all2 (created_id_ok keep_ids)
              (concat (map (\<lambda>x. preorder (snd x)) (push_children (pk n) node_struct st))) ids"
    by blast
  have "list_all2 (created_id_ok keep_ids)
          (concat (map (\<lambda>x. preorder (snd x)) ((parent_id, node_struct) # st))) (pk n # ids)"
    using a load_one_pk[OF o] preorder_push_children[of node_struct st "pk n"] by simp
  then show ?case using i by auto
qed

text \<open>
  Claim C7, as amended. \<open>load_bulk\<close> passes \<open>data\<close> to the node's constructor as it is:
  with \<open>keep_ids\<close> false an integer \<open>id\<close> in \<open>data\<close> is the id of the created node; with
  \<open>keep_ids\<close> true the id of the created node is the record's \<open>id\<close>. The ids are returned
  in the order the records are visited.
\<close>

theorem load_bulk_created_ids:
  assumes "load_bulk cfg t bulk_data parent keep_ids = Inr (t', added)"
  shows "list_all2 (created_id_ok keep_ids) (concat (map preorder bulk_data)) added"
  using load_loop_ids[OF assms[unfolded load_bulk_def]] by (simp add: comp_def)

text \<open>
  Claim C7 as stated fails: with \<open>keep_ids\<close> false, the \<open>id\<close> in \<open>data\<close> is not ignored.
  The record with \<open>data = {id: 7}\<close> creates the node 7; without the entry the store
  assigns 1.
\<close>

theorem load_bulk_uses_data_id:
  "load_bulk default_config [] [Rec [(''id'', IntV 7)] None None] None False
     = Inr ([\<lparr>pk = 7, tree_id = 1, lft = 1, rgt = 2, depth = 1, payload = []\<rparr>], [7]) \<and>
   load_bulk default_config [] [Rec [] None None] None False
     = Inr ([\<lparr>pk = 1, tree_id = 1, lft = 1, rgt = 2, depth = 1, payload = []\<rparr>], [1])"
  by (simp add: load_bulk_def load_one_def node_data_def add_root_def get_last_root_node_def
      get_root_nodes_def objects_filter_def ordered_def last_opt_def insert_new_def new_pk_def
      next_pk_def new_payload_def reserved_def save_def push_children_def Let_def)

theorem load_bulk_created_ids_witness:
  "load_bulk default_config [] [Rec [(''id'', IntV 7)] (Some [Rec [] None (Some 9)]) (Some 5)] None True
     = Inr ([\<lparr>pk = 5, tree_id = 1, lft = 1, rgt = 4, depth = 1, payload = []\<rparr>,
             \<lparr>pk = 9, tree_id = 1, lft = 2, rgt = 3, depth = 2, payload = []\<rparr>], [5, 9]) \<and>
   list_all2 (created_id_ok True)
     (concat (map preorder [Rec [(''id'', IntV 7)] (Some [Rec [] None (Some 9)]) (Some 5)])) [5, 9]"
proof -
  have 1: "load_bulk default_config [] [Rec [(''id'', IntV 7)] (Some [Rec [] None (Some 9)]) (Some 5)] None True
     = Inr ([\<lparr>pk = 5, tree_id = 1, lft = 1, rgt = 4, depth = 1, payload = []\<rparr>,
             \<lparr>pk = 9, tree_id = 1, lft = 2, rgt = 3, depth = 2, payload = []\<rparr>], [5, 9])"
    by (simp add: load_bulk_def load_one_def node_data_def add_root_def get_last_root_node_def
      get_root_nodes_def objects_filter_def ordered_def last_opt_def insert_new_def new_pk_def
      next_pk_def new_payload_def reserved_def save_def push_children_def Let_def
      objects_get_def add_child_def is_leaf_def move_right_def sql_update_def)
  show ?thesis using 1 load_bulk_created_ids[OF 1] by simp
qed

subsection \<open>Loading a record tree\<close>

lemma rsize_kids: "rsize r = Suc (fsize (kids r))"
  by (cases r) (simp add: kids_def fsize_def split: option.splits)

lemma fsize_simps [simp]: "fsize [] = 0" "fsize (c # cs) = rsize c + fsize cs"
  by (simp_all add: fsize_def)

lemma rsize_pos [simp]: "0 < rsize r"
  by (cases r) simp

lemma enc_tree_kids:
  "enc_tree T k l d r =
     \<lparr>pk = k, tree_id = T, lft = l, rgt = l + 2 * int (rsize r) - 1, depth = d,
      payload = rdata r\<rparr> # enc_forest T (k + 1) (l + 1) (d + 1) (kids r)"
  by (cases r) (simp add: kids_def split: option.splits)

lemma enc_length:
  "length (enc_tree T k l d r) = rsize r"
  "length (enc_forest T k l d cs) = fsize cs"
  by (induction T k l d r and T k l d cs rule: enc_tree_enc_forest.induct)
     (simp_all add: fsize_def split: option.splits)

lemma in_block_mono:
  "in_block T k' l' d' n' x \<Longrightarrow> k \<le> k' \<Longrightarrow> k' + int n' \<le> k + int n \<Longrightarrow> l \<le> l' \<Longrightarrow>
   l' + 2 * int n' \<le> l + 2 * int n \<Longrightarrow> d \<le> d' \<Longrightarrow> in_block T k l d n x"
  by (auto simp: in_block_def)

lemma enc_block:
  "x \<in> set (enc_tree T k l d r) \<Longrightarrow> in_block T k l d (rsize r) x"
  "x \<in> set (enc_forest T k l d cs) \<Longrightarrow> in_block T k l d (fsize cs) x"
proof (induction T k l d r and T k l d cs arbitrary: x and x rule: enc_tree_enc_forest.induct)
  case (1 T k l d dat ch i)
  show ?case
  proof (cases ch)
    case None
    then show ?thesis using 1(2) by (auto simp: in_block_def)
  next
    case (Some cs)
    have s: "rsize (Rec dat ch i) = Suc (fsize cs)" using Some by (simp add: fsize_def)
    from 1(2) Some consider "x = \<lparr>pk = k, tree_id = T, lft = l, rgt = l + 2 * int (rsize (Rec dat ch i)) - 1, depth = d, payload = dat\<rparr>"
      | "x \<in> set (enc_forest T (k + 1) (l + 1) (d + 1) cs)" by auto
    then show ?thesis
    proof cases
      case 1
      then show ?thesis by (simp add: in_block_def)
    next
      case 2
      from "1.IH"[OF Some 2] show ?thesis
        unfolding s by (rule in_block_mono) auto
    qed
  qed
next
  case (2 T k l d)
  then show ?case by simp
next
  case (3 T k l d c cs)
  from 3(3) consider "x \<in> set (enc_tree T k l d c)"
    | "x \<in> set (enc_forest T (k + int (rsize c)) (l + 2 * int (rsize c)) d cs)" by auto
  then show ?case
  proof cases
    case 1
    from "3.IH"(1)[OF 1] show ?thesis by (rule in_block_mono) auto
  next
    case 2
    from "3.IH"(2)[OF 2] show ?thesis by (rule in_block_mono) auto
  qed
qed

lemma enc_sorted:
  "sorted_wrt (\<lambda>a b. lft a < lft b) (enc_tree T k l d r)"
  "sorted_wrt (\<lambda>a b. lft a < lft b) (enc_forest T k l d cs)"
proof (induction T k l d r and T k l d cs rule: enc_tree_enc_forest.induct)
  case (1 T k l d dat ch i)
  show ?case
  proof (cases ch)
    case None
    then show ?thesis by simp
  next
    case (Some cs)
    have "\<And>x. x \<in> set (enc_forest T (k + 1) (l + 1) (d + 1) cs) \<Longrightarrow> l < lft x"
      using enc_block(2) by (fastforce simp: in_block_def)
    then show ?thesis using Some "1.IH"[OF Some] by simp
  qed
next
  case (2 T k l d)
  then show ?case by simp
next
  case (3 T k l d c cs)
  have "\<And>x y. x \<in> set (enc_tree T k l d c) \<Longrightarrow>
           y \<in> set (enc_forest T (k + int (rsize c)) (l + 2 * int (rsize c)) d cs) \<Longrightarrow> lft x < lft y"
  proof -
    fix x y
    assume "x \<in> set (enc_tree T k l d c)"
      and "y \<in> set (enc_forest T (k + int (rsize c)) (l + 2 * int (rsize c)) d cs)"
    then have "in_block T k l d (rsize c) x"
      and "in_block T (k + int (rsize c)) (l + 2 * int (rsize c)) d (fsize cs) y"
      using enc_block by blast+
    then show "lft x < lft y" by (simp add: in_block_def)
  qed
  then show ?case using "3.IH" by (simp add: sorted_wrt_append)
qed

subsection \<open>Rows around an encoded tree\<close>

lemma sort_key_nonempty: "y \<in> set xs \<Longrightarrow> sort_key f xs \<noteq> []"
proof
  assume "y \<in> set xs" and "sort_key f xs = []"
  then have "length (sort_key f xs) = 0" by simp
  then have "xs = []" by (simp only: length_sort length_0_conv)
  then show False using \<open>y \<in> set xs\<close> by simp
qed

lemma last_sort_key_max:
  assumes "y \<in> set xs" and "\<forall>z \<in> set xs. z \<noteq> y \<longrightarrow> f z < f y"
  shows "last (sort_key f xs) = y"
proof (rule ccontr)
  let ?s = "sort_key f xs"
  assume n: "last ?s \<noteq> y"
  have ne: "?s \<noteq> []" by (rule sort_key_nonempty[OF assms(1)])
  then have "last ?s \<in> set xs" using last_in_set[OF ne] by simp
  then have lt: "f (last ?s) < f y" using assms(2) n by blast
  have "f y \<le> f (last ?s)"
    by (rule sorted_key_last) (use assms(1) in simp_all)
  then show False using lt by simp
qed

lemma get_parent_hangs:
  assumes "hangs t' T x l m" and "w \<in> set t'" and "tree_id w = T" and "lft w = l"
    and "l \<le> rgt w" and "rgt w < l + 2 * int m"
  shows "get_parent t' w = Inr (Some x)"
proof -
  have h: "x \<in> set t'" "tree_id x = T" "1 \<le> lft x" "lft x < l" "l + 2 * int m \<le> rgt x"
    "\<forall>z \<in> set t'. tree_id z = T \<and> lft x \<le> lft z \<and> lft z < l \<and> z \<noteq> x \<longrightarrow> rgt z < l"
    using assms(1) by (simp_all add: hangs_def)
  let ?A = "\<lambda>r. tree_id r = tree_id w \<and> lft r < lft w \<and> rgt w < rgt r"
  have nr: "\<not> is_root w" using h(3,4) assms(4) by (simp add: is_root_def)
  have xin: "x \<in> set (filter ?A t')" using h assms by simp
  have "\<forall>z \<in> set (filter ?A t'). z \<noteq> x \<longrightarrow> (tree_id z, lft z) < (tree_id x, lft x)"
  proof (intro ballI impI)
    fix z assume z: "z \<in> set (filter ?A t')" "z \<noteq> x"
    then have zz: "z \<in> set t'" "tree_id z = T" "lft z < l" "rgt w < rgt z"
      using assms(3,4) by simp_all
    have "lft z < lft x"
    proof (rule ccontr)
      assume "\<not> lft z < lft x"
      then have "rgt z < l" using h(6) zz z(2) by simp
      then show False using zz(4) assms(5) by simp
    qed
    then show "(tree_id z, lft z) < (tree_id x, lft x)" using zz(2) h(2) by simp
  qed
  then have "last (sort_key (\<lambda>r. (tree_id r, lft r)) (filter ?A t')) = x"
    by (rule last_sort_key_max[OF xin])
  moreover have "sort_key (\<lambda>r. (tree_id r, lft r)) (filter ?A t') \<noteq> []"
    by (rule sort_key_nonempty[OF xin])
  ultimately show ?thesis
    using nr by (simp add: get_parent_def get_ancestors_def objects_filter_def ordered_def
        last_opt_eq)
qed

lemma region_head:
  assumes "region t' T l (fsize (c # cs)) (enc_forest T k l d (c # cs))"
  shows "region t' T l (rsize c) (enc_tree T k l d c)"
  unfolding region_def
proof (intro conjI ballI impI)
  show "set (enc_tree T k l d c) \<subseteq> set t'" using assms by (simp add: region_def)
next
  fix z assume z: "z \<in> set t'" "tree_id z = T \<and> l \<le> lft z \<and> lft z \<le> l + 2 * int (rsize c) - 1"
  then have "z \<in> set (enc_forest T k l d (c # cs))" using assms by (simp add: region_def)
  moreover have "z \<notin> set (enc_forest T (k + int (rsize c)) (l + 2 * int (rsize c)) d cs)"
    using enc_block(2)[of z T "k + int (rsize c)" "l + 2 * int (rsize c)" d cs] z(2)
    by (auto simp: in_block_def)
  ultimately show "z \<in> set (enc_tree T k l d c)" by simp
qed

lemma region_tail:
  assumes "region t' T l (fsize (c # cs)) (enc_forest T k l d (c # cs))"
  shows "region t' T (l + 2 * int (rsize c)) (fsize cs)
           (enc_forest T (k + int (rsize c)) (l + 2 * int (rsize c)) d cs)"
  unfolding region_def
proof (intro conjI ballI impI)
  show "set (enc_forest T (k + int (rsize c)) (l + 2 * int (rsize c)) d cs) \<subseteq> set t'"
    using assms by (simp add: region_def)
next
  fix z assume z: "z \<in> set t'"
    "tree_id z = T \<and> l + 2 * int (rsize c) \<le> lft z \<and>
     lft z \<le> l + 2 * int (rsize c) + 2 * int (fsize cs) - 1"
  then have "z \<in> set (enc_forest T k l d (c # cs))" using assms by (simp add: region_def)
  moreover have "z \<notin> set (enc_tree T k l d c)"
    using enc_block(1)[of z T k l d c] z(2) by (auto simp: in_block_def)
  ultimately show "z \<in> set (enc_forest T (k + int (rsize c)) (l + 2 * int (rsize c)) d cs)"
    by simp
qed

lemma region_kids:
  assumes "region t' T l (rsize c) (enc_tree T k l d c)"
  shows "region t' T (l + 1) (fsize (kids c)) (enc_forest T (k + 1) (l + 1) (d + 1) (kids c))"
  unfolding region_def
proof (intro conjI ballI impI)
  show "set (enc_forest T (k + 1) (l + 1) (d + 1) (kids c)) \<subseteq> set t'"
    using assms by (auto simp: region_def enc_tree_kids[of T k l d c])
next
  fix z assume z: "z \<in> set t'"
    "tree_id z = T \<and> l + 1 \<le> lft z \<and> lft z \<le> l + 1 + 2 * int (fsize (kids c)) - 1"
  then have "z \<in> set (enc_tree T k l d c)"
    using assms by (simp add: region_def rsize_kids[of c])
  then consider "z = \<lparr>pk = k, tree_id = T, lft = l, rgt = l + 2 * int (rsize c) - 1, depth = d,
            payload = rdata c\<rparr>" | "z \<in> set (enc_forest T (k + 1) (l + 1) (d + 1) (kids c))"
    by (auto simp: enc_tree_kids[of T k l d c])
  then show "z \<in> set (enc_forest T (k + 1) (l + 1) (d + 1) (kids c))"
  proof cases
    case 1
    then have "lft z = l" by simp
    then show ?thesis using z(2) by simp
  next
    case 2
    then show ?thesis .
  qed
qed

lemma hangs_kids:
  assumes "region t' T l (rsize c) (enc_tree T k l d c)" and "1 \<le> l"
  shows "hangs t' T
           \<lparr>pk = k, tree_id = T, lft = l, rgt = l + 2 * int (rsize c) - 1, depth = d,
            payload = rdata c\<rparr> (l + 1) (fsize (kids c))"
  unfolding hangs_def
proof (intro conjI ballI impI)
  let ?w = "\<lparr>pk = k, tree_id = T, lft = l, rgt = l + 2 * int (rsize c) - 1, depth = d,
            payload = rdata c\<rparr>"
  show "?w \<in> set t'" using assms(1) by (auto simp: region_def enc_tree_kids[of T k l d c])
  show "tree_id ?w = T" "1 \<le> lft ?w" "lft ?w < l + 1" using assms(2) by simp_all
  show "l + 1 + 2 * int (fsize (kids c)) \<le> rgt ?w" by (simp add: rsize_kids[of c])
  fix z assume z: "z \<in> set t'" "tree_id z = T \<and> lft ?w \<le> lft z \<and> lft z < l + 1 \<and> z \<noteq> ?w"
  have "1 \<le> int (rsize c)" using rsize_pos[of c] by linarith
  then have "lft z \<le> l + 2 * int (rsize c) - 1" using z(2) by simp
  then have "z \<in> set (enc_tree T k l d c)" using assms(1) z by (simp add: region_def)
  then have "z \<in> set (enc_forest T (k + 1) (l + 1) (d + 1) (kids c))"
    using z(2) by (auto simp: enc_tree_kids[of T k l d c])
  then have "l + 1 \<le> lft z" using enc_block(2) by (fastforce simp: in_block_def)
  then show "rgt z < l + 1" using z(2) by simp
qed

lemma hangs_tail:
  assumes "hangs t' T x l (fsize (c # cs))"
    and "region t' T l (fsize (c # cs)) (enc_forest T k l d (c # cs))"
  shows "hangs t' T x (l + 2 * int (rsize c)) (fsize cs)"
  unfolding hangs_def
proof (intro conjI ballI impI)
  have h: "x \<in> set t'" "tree_id x = T" "1 \<le> lft x" "lft x < l"
    "l + 2 * int (fsize (c # cs)) \<le> rgt x"
    "\<forall>z \<in> set t'. tree_id z = T \<and> lft x \<le> lft z \<and> lft z < l \<and> z \<noteq> x \<longrightarrow> rgt z < l"
    using assms(1) by (simp_all add: hangs_def)
  show "x \<in> set t'" "tree_id x = T" "1 \<le> lft x" by (rule h)+
  show "lft x < l + 2 * int (rsize c)" using h(4) by simp
  show "l + 2 * int (rsize c) + 2 * int (fsize cs) \<le> rgt x" using h(5) by simp
  fix z assume z: "z \<in> set t'"
    "tree_id z = T \<and> lft x \<le> lft z \<and> lft z < l + 2 * int (rsize c) \<and> z \<noteq> x"
  show "rgt z < l + 2 * int (rsize c)"
  proof (cases "lft z < l")
    case True
    then have "rgt z < l" using h(6) z by simp
    then show ?thesis by simp
  next
    case False
    then have "z \<in> set (enc_tree T k l d c)"
      using region_head[OF assms(2)] z by (simp add: region_def)
    then show ?thesis using enc_block(1)[of z T k l d c] by (simp add: in_block_def)
  qed
qed

lemma dump_fields_clean:
  assumes "set reserved \<inter> fst ` set (payload w) = {}"
  shows "dump_fields w = payload w"
proof -
  have "\<And>k. k \<in> set reserved \<Longrightarrow> del_key k (payload w) = payload w"
    using assms by (auto simp: del_key_def filter_id_conv)
  then have p: "del_key ''tree_id'' (payload w) = payload w"
      "del_key ''depth'' (payload w) = payload w" "del_key ''rgt'' (payload w) = payload w"
      "del_key ''lft'' (payload w) = payload w"
    by (simp_all add: reserved_def)
  have "''id'' \<notin> fst ` set (payload w)" using assms by (auto simp: reserved_def)
  then show ?thesis
    using p by (simp add: dump_fields_def serialize_fields_def del_key_def Let_def)
qed

lemma dump_step_child:
  assumes "depth w \<noteq> depth nr" and "get_parent t' w = Inr (Some x)"
    and "map_of (lnk st) (pk x) = Some a"
  shows "dump_step t' (Some nr) keep st w =
           Inr \<lparr>ret = map (append_child a
                  (TRec (created st) (dump_fields w) None (if keep then Some (pk w) else None)))
                  (ret st),
                lnk = (pk w, created st) # lnk st, created = Suc (created st)\<rparr>"
  using assms by (simp add: dump_step_def Let_def)

lemma top_rows:
  "region t' T l (fsize cs) (enc_forest T k l d cs) \<Longrightarrow> hangs t' T x l (fsize cs) \<Longrightarrow>
   s \<in> set (enc_forest T k l d cs) \<Longrightarrow> depth s = d \<Longrightarrow>
   get_parent t' s = Inr (Some x) \<and> payload s \<in> rdata ` set cs"
proof (induction cs arbitrary: k l)
  case Nil
  then show ?case by simp
next
  case (Cons c cs)
  let ?w = "\<lparr>pk = k, tree_id = T, lft = l, rgt = l + 2 * int (rsize c) - 1, depth = d,
             payload = rdata c\<rparr>"
  have rc: "region t' T l (rsize c) (enc_tree T k l d c)" by (rule region_head[OF Cons.prems(1)])
  from Cons.prems(3) consider "s = ?w"
    | "s \<in> set (enc_forest T (k + 1) (l + 1) (d + 1) (kids c))"
    | "s \<in> set (enc_forest T (k + int (rsize c)) (l + 2 * int (rsize c)) d cs)"
    by (auto simp: enc_tree_kids[of T k l d c])
  then show ?case
  proof cases
    case 1
    have win: "?w \<in> set t'" using rc by (simp add: region_def enc_tree_kids[of T k l d c])
    have "1 \<le> int (rsize c)" using rsize_pos[of c] by linarith
    then have "get_parent t' ?w = Inr (Some x)"
      by (intro get_parent_hangs[OF Cons.prems(2) win]) simp_all
    then show ?thesis using 1 by simp
  next
    case 2
    then have "d + 1 \<le> depth s" using enc_block(2) by (fastforce simp: in_block_def)
    then show ?thesis using Cons.prems(4) by simp
  next
    case 3
    show ?thesis
      using Cons.IH[OF region_tail[OF Cons.prems(1)] hangs_tail[OF Cons.prems(2) Cons.prems(1)] 3
          Cons.prems(4)]
      by auto
  qed
qed

lemma enc_forest_append:
  "enc_forest T k l d (xs @ ys) =
     enc_forest T k l d xs @ enc_forest T (k + int (fsize xs)) (l + 2 * int (fsize xs)) d ys"
  by (induction xs arbitrary: k l) (simp_all add: algebra_simps)

subsection \<open>Adding one child\<close>

lemma fold_max_ge: "a \<le> fold max xs (a::int)"
proof (induction xs arbitrary: a)
  case Nil
  then show ?case by simp
next
  case (Cons x xs)
  have "a \<le> max x a" by simp
  also have "max x a \<le> fold max xs (max x a)" by (rule Cons.IH)
  finally show ?case by simp
qed

lemma fold_max_mem: "x \<in> set xs \<Longrightarrow> x \<le> fold max xs (a::int)"
proof (induction xs arbitrary: a)
  case Nil
  then show ?case by simp
next
  case (Cons y ys)
  show ?case
  proof (cases "x = y")
    case True
    have "max y a \<le> fold max ys (max y a)" by (rule fold_max_ge)
    then show ?thesis using True by simp
  next
    case False
    then show ?thesis using Cons by simp
  qed
qed

lemma next_pk_fresh: "x \<in> set t \<Longrightarrow> pk x < next_pk t"
  using fold_max_mem[of "pk x" "map pk t" 0] by (simp add: next_pk_def)

lemma next_pk_pos: "1 \<le> next_pk t"
  using fold_max_ge[of 0 "map pk t"] by (simp add: next_pk_def)

lemma fold_max_append_one: "fold max (xs @ [y]) (a::int) = max y (fold max xs a)"
  by simp

lemma next_pk_snoc: "pk x = next_pk t \<Longrightarrow> next_pk (t @ [x]) = next_pk t + 1"
  by (simp add: next_pk_def max_def)

lemma next_pk_map: "(\<And>r. pk (f r) = pk r) \<Longrightarrow> next_pk (map f t) = next_pk t"
  by (simp add: next_pk_def comp_def)

lemma pk_bump [simp]: "pk (bump T x w r) = pk r"
  by (simp add: bump_def)

lemma tree_id_bump [simp]: "tree_id (bump T x w r) = tree_id r"
  by (simp add: bump_def)

lemma lft_bump [simp]: "lft (bump T x w r) = lft r"
  by (simp add: bump_def)

lemma depth_bump [simp]: "depth (bump T x w r) = depth r"
  by (simp add: bump_def)

lemma move_right_bump:
  assumes "\<forall>x \<in> set t. tree_id x = T \<longrightarrow> lft x < x0"
  shows "move_right T x0 False w t = map (bump T x0 w) t"
  unfolding move_right_def sql_update_def
proof (rule map_cong[OF refl])
  fix r assume "r \<in> set t"
  then have "tree_id r = T \<Longrightarrow> \<not> x0 < lft r" using assms by force
  then show "(if x0 \<le> rgt r \<and> tree_id r = T
              then r\<lparr>lft := if if False then x0 \<le> lft r else x0 < lft r then lft r + w else lft r,
                      rgt := if x0 \<le> rgt r then rgt r + w else rgt r\<rparr>
              else r) = bump T x0 w r"
    by (auto simp: bump_def)
qed

lemma insert_new_fresh:
  assumes "set reserved \<inter> fst ` set kwargs = {}"
  shows "insert_new t kwargs T l (l + 1) d = (t @ [new_row (next_pk t) T l d kwargs],
           new_row (next_pk t) T l d kwargs)"
proof -
  have "''id'' \<notin> fst ` set kwargs" using assms by (auto simp: reserved_def)
  then have "map_of kwargs ''id'' = None" by (simp add: map_of_eq_None_iff)
  then have k: "new_pk t kwargs = next_pk t" by (simp add: new_pk_def)
  have p: "new_payload kwargs = kwargs"
    using assms by (auto simp: new_payload_def filter_id_conv)
  have "\<not> (\<exists>r \<in> set t. pk r = next_pk t)" using next_pk_fresh by force
  then show ?thesis by (simp add: insert_new_def k p save_def new_row_def Let_def)
qed

lemma last_opt_mem: "last_opt xs = Some x \<Longrightarrow> x \<in> set xs"
  by (auto simp: last_opt_eq split: if_splits)

lemma slot_last_child:
  assumes "slot t P" and "\<not> is_leaf P"
  shows "\<exists>c. get_last_child t P = Some c \<and> tree_id c = tree_id P \<and>
             depth c = depth P + 1 \<and> lft c \<noteq> 1"
proof -
  obtain x where x: "x \<in> set t" "tree_id x = tree_id P" "lft P \<le> lft x" "lft x \<le> rgt P - 1"
      "pk x \<noteq> pk P" "depth x = depth P + 1"
    using assms by (auto simp: slot_def)
  then have "x \<in> set (get_children t P)"
    using assms(2)
    by (simp add: get_children_def get_descendants_def get_tree_def objects_filter_def ordered_def)
  then have ne: "get_children t P \<noteq> []" by auto
  then obtain c where c: "get_last_child t P = Some c"
    by (simp add: get_last_child_def last_opt_eq)
  then have "c \<in> set (get_children t P)"
    by (simp add: get_last_child_def last_opt_mem)
  then have m: "c \<in> set t" "tree_id c = tree_id P" "lft P \<le> lft c" "pk c \<noteq> pk P"
      "depth c = depth P + 1"
    using assms(2)
    by (auto simp: get_children_def get_descendants_def get_tree_def objects_filter_def ordered_def)
  then have "lft P < lft c" using assms(1) by (auto simp: slot_def)
  moreover have "1 \<le> lft P" using assms(1) by (simp add: slot_def)
  ultimately show ?thesis using c m by auto
qed

lemma slot_mem: "slot t P \<Longrightarrow> P \<in> set t"
proof -
  assume "slot t P"
  then have "P \<in> set (filter (\<lambda>r. pk r = pk P) t)" by (simp add: slot_def)
  then show ?thesis by simp
qed

lemma hangs_brood:
  assumes "slot t P" and "brood t P prev"
  shows "hangs t (tree_id P) P (lft P + 1) (fsize prev)"
  unfolding hangs_def
proof (intro conjI ballI impI)
  show "P \<in> set t" by (rule slot_mem[OF assms(1)])
  show "tree_id P = tree_id P" "lft P < lft P + 1" by simp_all
  show "1 \<le> lft P" using assms(1) by (simp add: slot_def)
  show "lft P + 1 + 2 * int (fsize prev) \<le> rgt P" using assms(2) by (simp add: brood_def)
  fix z assume z: "z \<in> set t"
    "tree_id z = tree_id P \<and> lft P \<le> lft z \<and> lft z < lft P + 1 \<and> z \<noteq> P"
  have "pk z = pk P"
  proof (rule ccontr)
    assume "pk z \<noteq> pk P"
    then have "lft P < lft z" using assms(1) z by (simp add: slot_def)
    then show False using z(2) by simp
  qed
  then have "z \<in> set (filter (\<lambda>r. pk r = pk P) t)" using z(1) by simp
  moreover have "filter (\<lambda>r. pk r = pk P) t = [P]" using assms(1) by (simp add: slot_def)
  ultimately have "z \<in> set [P]" by (simp only:)
  then have "z = P" by simp
  then show "rgt z < lft P + 1" using z(2) by simp
qed

lemma children_brood:
  assumes "slot t P" and "brood t P prev" and "s \<in> set (get_children t P)"
  shows "get_parent t s = Inr (Some P) \<and> payload s \<in> rdata ` set prev"
proof -
  have nl: "\<not> is_leaf P"
    using assms(3) by (auto simp: get_children_def get_descendants_def)
  then have m: "s \<in> set t" "tree_id s = tree_id P" "lft P \<le> lft s" "lft s \<le> rgt P - 1"
      "pk s \<noteq> pk P" "depth s = depth P + 1"
    using assms(3)
    by (auto simp: get_children_def get_descendants_def get_tree_def objects_filter_def
        ordered_def)
  have "lft P < lft s" using assms(1) m by (simp add: slot_def)
  then have "s \<in> set (enc_forest (tree_id P) (pk P + 1) (lft P + 1) (depth P + 1) prev)"
    using assms(2) m by (simp add: brood_def region_def)
  moreover have "region t (tree_id P) (lft P + 1) (fsize prev)
       (enc_forest (tree_id P) (pk P + 1) (lft P + 1) (depth P + 1) prev)"
    using assms(2) by (simp add: brood_def)
  ultimately show ?thesis
    using top_rows[OF _ hangs_brood[OF assms(1,2)] _ m(6)] by blast
qed

lemma add_child_slot:
  assumes "slot t P" and "brood t P prev" and "set reserved \<inter> fst ` set kwargs = {}"
    and "node_order_by cfg = [] \<or> (\<forall>c \<in> set prev. \<not> key_after cfg (rdata c) kwargs)"
  shows "\<exists>P'. add_child cfg t P kwargs =
           Inr (map (bump (tree_id P) (rgt P) 2) t
                  @ [new_row (next_pk t) (tree_id P) (rgt P) (depth P + 1) kwargs],
                new_row (next_pk t) (tree_id P) (rgt P) (depth P + 1) kwargs, P')"
proof -
  let ?T = "tree_id P"
  have b: "\<forall>x \<in> set t. tree_id x = ?T \<longrightarrow> lft x < rgt P"
    using assms(1) by (simp add: slot_def)
  have mr: "move_right ?T (rgt P) False 2 t = map (bump ?T (rgt P) 2) t"
    by (rule move_right_bump[OF b])
  have np: "next_pk (map (bump ?T (rgt P) 2) t) = next_pk t"
    by (rule next_pk_map) simp
  have ins: "\<And>d. insert_new (map (bump ?T (rgt P) 2) t) kwargs ?T (rgt P) (rgt P + 1) d
      = (map (bump ?T (rgt P) 2) t @ [new_row (next_pk t) ?T (rgt P) d kwargs],
         new_row (next_pk t) ?T (rgt P) d kwargs)"
    using insert_new_fresh[OF assms(3), of "map (bump ?T (rgt P) 2) t"] by (simp add: np)
  have pl: "new_payload kwargs = kwargs"
    using assms(3) by (auto simp: new_payload_def filter_id_conv)
  show ?thesis
  proof (cases "is_leaf P")
    case True
    then have r: "lft P + 1 = rgt P" "lft P + 2 = rgt P + 1" by (simp_all add: is_leaf_def)
    show ?thesis
      using True by (simp add: add_child_def mr r ins)
  next
    case False
    obtain c where c: "get_last_child t P = Some c" "tree_id c = ?T"
        "depth c = depth P + 1" "lft c \<noteq> 1"
      using slot_last_child[OF assms(1) False] by blast
    have g: "objects_get t (pk P) = Inr P"
      using assms(1) by (simp add: slot_def objects_get_def)
    let ?res = "Inr (map (bump ?T (rgt P) 2) t @ [new_row (next_pk t) ?T (rgt P) (depth P + 1) kwargs],
               new_row (next_pk t) ?T (rgt P) (depth P + 1) kwargs)"
    have s: "add_sibling_cached cfg t (Some P) c
               (if node_order_by cfg \<noteq> [] then SortedSibling else LastSibling) kwargs = ?res"
    proof (cases "node_order_by cfg = []")
      case True
      then show ?thesis
        using c
        by (simp add: add_sibling_cached_def is_root_def resolve_sorted_def norm_sibling_def mr
            ins Let_def)
    next
      case False
      then have srt: "\<forall>c \<in> set prev. \<not> key_after cfg (rdata c) kwargs" using assms(4) by simp
      have cin: "c \<in> set (get_children t P)"
        using c(1) by (simp add: get_last_child_def last_opt_mem)
      have gp: "get_parent t c = Inr (Some P)"
        using children_brood[OF assms(1,2) cin] by simp
      have gs: "get_siblings t c = Inr (get_children t P)"
        using c(4) gp by (simp add: get_siblings_def)
      have "\<forall>s \<in> set (get_children t P). \<not> key_after cfg (payload s) kwargs"
      proof
        fix s assume "s \<in> set (get_children t P)"
        then have "payload s \<in> rdata ` set prev" using children_brood[OF assms(1,2)] by blast
        then show "\<not> key_after cfg (payload s) kwargs" using srt by auto
      qed
      then have q: "get_sorted_pos_queryset cfg (get_children t P) kwargs = []"
        by (simp add: get_sorted_pos_queryset_def filter_empty_conv)
      have rs: "resolve_sorted cfg t c (new_payload kwargs) SortedSibling = Inr (c, LastSibling)"
        by (simp add: resolve_sorted_def gs q pl)
      show ?thesis
        using False c
        by (simp add: add_sibling_cached_def is_root_def rs norm_sibling_def gp mr ins Let_def)
    qed
    show ?thesis
      using False s by (simp add: add_child_def c(1) g Let_def)
  qed
qed

lemma ids_0 [simp]: "ids k 0 = []"
  by (simp add: ids_def)

lemma ids_add: "ids k (a + b) = ids k a @ ids (k + int a) b"
proof -
  have 1: "[0..<a + b] = [0..<a] @ [a..<a + b]"
    by (rule upt_add_eq_append) simp
  have 2: "[a..<a + b] = map (\<lambda>i. i + a) [0..<b]"
    using map_add_upt[of a b] by (simp only: add.commute)
  have "ids k (a + b) = map (\<lambda>i. k + int i) [0..<a] @ map (\<lambda>i. k + int i) (map (\<lambda>i. i + a) [0..<b])"
    unfolding ids_def 1 2 by (simp only: map_append)
  also have "map (\<lambda>i. k + int i) (map (\<lambda>i. i + a) [0..<b]) = map (\<lambda>i. (k + int a) + int i) [0..<b]"
    by (simp add: comp_def)
  finally show ?thesis by (simp add: ids_def)
qed

lemma ids_Suc: "ids k (Suc n) = k # ids (k + 1) n"
  using ids_add[of k 1 n] by (simp add: ids_def)

lemma set_ids: "set (ids k n) = {i. k \<le> i \<and> i < k + int n}"
proof -
  have "\<And>i. k \<le> i \<Longrightarrow> i < k + int n \<Longrightarrow> i \<in> (\<lambda>j. k + int j) ` {0..<n}"
  proof -
    fix i assume "k \<le> i" "i < k + int n"
    then have "i = k + int (nat (i - k))" "nat (i - k) \<in> {0..<n}" by auto
    then show "i \<in> (\<lambda>j. k + int j) ` {0..<n}" by blast
  qed
  then show ?thesis by (auto simp: ids_def)
qed

lemma enc_pks:
  "map pk (enc_tree T k l d r) = ids k (rsize r)"
  "map pk (enc_forest T k l d cs) = ids k (fsize cs)"
proof (induction T k l d r and T k l d cs rule: enc_tree_enc_forest.induct)
  case (1 T k l d dat ch i)
  show ?case
  proof (cases ch)
    case None
    then show ?thesis by (simp add: ids_Suc)
  next
    case (Some cs)
    then show ?thesis using "1.IH"[OF Some] by (simp add: ids_Suc fsize_def)
  qed
next
  case (2 T k l d)
  then show ?case by simp
next
  case (3 T k l d c cs)
  then show ?case by (simp add: ids_add)
qed

lemma next_pk_eqI:
  assumes "\<forall>x \<in> set t. pk x < m" and "\<exists>x \<in> set t. pk x = m - 1" and "1 \<le> m"
  shows "next_pk t = m"
proof -
  obtain x where x: "x \<in> set t" "pk x = m - 1" using assms(2) by blast
  have "fold max (map pk t) 0 = Max (set (0 # map pk t))"
    by (rule Max.set_eq_fold[symmetric])
  also have "\<dots> = m - 1"
  proof (rule Max_eqI)
    show "finite (set (0 # map pk t))" by simp
    show "\<And>y. y \<in> set (0 # map pk t) \<Longrightarrow> y \<le> m - 1" using assms(1,3) by auto
    show "m - 1 \<in> set (0 # map pk t)" using x by force
  qed
  finally show ?thesis by (simp add: next_pk_def)
qed

lemma next_pk_append_block:
  assumes "map pk E = ids (next_pk t) n" and "0 < n" and "\<And>r. pk (f r) = pk r"
  shows "next_pk (map f t @ E) = next_pk t + int n"
proof (rule next_pk_eqI)
  have e: "pk ` set E = {i. next_pk t \<le> i \<and> i < next_pk t + int n}"
    using arg_cong[OF assms(1), of set] by (simp add: set_ids)
  show "\<forall>x \<in> set (map f t @ E). pk x < next_pk t + int n"
  proof
    fix x assume "x \<in> set (map f t @ E)"
    then consider y where "y \<in> set t" "x = f y" | "x \<in> set E" by auto
    then show "pk x < next_pk t + int n"
    proof cases
      case 1
      then show ?thesis using next_pk_fresh[of y t] assms(3)[of y] by simp
    next
      case 2
      then have "pk x \<in> pk ` set E" by simp
      then show ?thesis unfolding e by simp
    qed
  qed
  have "next_pk t + int n - 1 \<in> pk ` set E" using e assms(2) by simp
  then show "\<exists>x \<in> set (map f t @ E). pk x = next_pk t + int n - 1" by auto
  show "1 \<le> next_pk t + int n" using next_pk_pos[of t] by simp
qed

lemma bump_bump:
  assumes "x \<le> y" and "y \<le> x + w1"
  shows "bump T y w2 (bump T x w1 r) = bump T x (w1 + w2) r"
  using assms by (auto simp: bump_def)

lemma bump_block:
  "in_block T k l d n x \<Longrightarrow> l + 2 * int n \<le> y \<Longrightarrow> bump T y w x = x"
  by (simp add: bump_def in_block_def)

lemma slot_new:
  assumes "slot t P"
  shows "slot (map (bump (tree_id P) (rgt P) 2) t
                 @ [new_row (next_pk t) (tree_id P) (rgt P) (depth P + 1) dat])
              (new_row (next_pk t) (tree_id P) (rgt P) (depth P + 1) dat)"
proof -
  let ?new = "new_row (next_pk t) (tree_id P) (rgt P) (depth P + 1) dat"
  have "filter (\<lambda>r. pk r = next_pk t) (map (bump (tree_id P) (rgt P) 2) t) = []"
    by (auto simp: filter_empty_conv dest: next_pk_fresh)
  then have a: "filter (\<lambda>r. pk r = pk ?new)
                  (map (bump (tree_id P) (rgt P) 2) t @ [?new]) = [?new]"
    by (simp add: new_row_def)
  have b: "\<forall>x \<in> set t. tree_id x = tree_id P \<longrightarrow> lft x < rgt P"
    and c: "1 \<le> lft P" "lft P < rgt P"
    using assms by (simp_all add: slot_def)
  show ?thesis
    unfolding slot_def
    using a b c next_pk_pos[of t]
    by (auto simp: new_row_def is_leaf_def)
qed

lemma slot_after:
  assumes "slot t P" and "\<forall>x \<in> set E. in_block (tree_id P) (next_pk t) (rgt P) (depth P + 1) n x"
    and "\<exists>x \<in> set E. depth x = depth P + 1"
  shows "slot (map (bump (tree_id P) (rgt P) (2 * int n)) t @ E) (P\<lparr>rgt := rgt P + 2 * int n\<rparr>)"
proof -
  let ?T = "tree_id P" and ?w = "2 * int n"
  have s: "filter (\<lambda>r. pk r = pk P) t = [P]" "pk P \<noteq> 0" "1 \<le> lft P" "lft P < rgt P"
    "\<forall>x \<in> set t. tree_id x = ?T \<longrightarrow> lft x < rgt P"
    "\<forall>x \<in> set t. tree_id x = ?T \<and> lft P \<le> lft x \<and> pk x \<noteq> pk P \<longrightarrow> lft P < lft x"
    using assms(1) by (simp_all add: slot_def)
  have "P \<in> set (filter (\<lambda>r. pk r = pk P) t)" by (simp add: s(1))
  then have Pin: "P \<in> set t" by simp
  have pkE: "\<forall>x \<in> set E. pk x \<noteq> pk P"
    using assms(2) next_pk_fresh[OF Pin] by (auto simp: in_block_def)
  have "filter (\<lambda>r. pk r = pk P) (map (bump ?T (rgt P) ?w) t)
          = map (bump ?T (rgt P) ?w) (filter (\<lambda>r. pk r = pk P) t)"
    by (simp add: filter_map comp_def)
  then have f1: "filter (\<lambda>r. pk r = pk P) (map (bump ?T (rgt P) ?w) t) = [P\<lparr>rgt := rgt P + ?w\<rparr>]"
    using s(1) by (simp add: bump_def)
  have f2: "filter (\<lambda>r. pk r = pk P) E = []" using pkE by (simp add: filter_empty_conv)
  obtain c where c: "c \<in> set E" "depth c = depth P + 1" using assms(3) by blast
  then have cb: "in_block ?T (next_pk t) (rgt P) (depth P + 1) n c" using assms(2) by blast
  have n: "0 < n" using cb by (auto simp: in_block_def)
  have child: "\<exists>x \<in> set (map (bump ?T (rgt P) ?w) t @ E).
      tree_id x = ?T \<and> lft P \<le> lft x \<and> lft x \<le> rgt P + ?w - 1 \<and> pk x \<noteq> pk P \<and>
      depth x = depth P + 1"
    using c cb pkE s(4) by (intro bexI[of _ c]) (auto simp: in_block_def)
  have b: "\<forall>x \<in> set (map (bump ?T (rgt P) ?w) t @ E). tree_id x = ?T \<longrightarrow> lft x < rgt P + ?w"
  proof (intro ballI impI)
    fix x assume x: "x \<in> set (map (bump ?T (rgt P) ?w) t @ E)" "tree_id x = ?T"
    then consider y where "y \<in> set t" "x = bump ?T (rgt P) ?w y" | "x \<in> set E" by auto
    then show "lft x < rgt P + ?w"
    proof cases
      case 1
      then have "lft y < rgt P" using s(5) x(2) by simp
      then show ?thesis using 1 n by simp
    next
      case 2
      then have "in_block ?T (next_pk t) (rgt P) (depth P + 1) n x" using assms(2) by blast
      then show ?thesis by (simp add: in_block_def)
    qed
  qed
  have cc: "\<forall>x \<in> set (map (bump ?T (rgt P) ?w) t @ E).
      tree_id x = ?T \<and> lft P \<le> lft x \<and> pk x \<noteq> pk P \<longrightarrow> lft P < lft x"
  proof (intro ballI impI)
    fix x assume x: "x \<in> set (map (bump ?T (rgt P) ?w) t @ E)"
      "tree_id x = ?T \<and> lft P \<le> lft x \<and> pk x \<noteq> pk P"
    then consider y where "y \<in> set t" "x = bump ?T (rgt P) ?w y" | "x \<in> set E" by auto
    then show "lft P < lft x"
    proof cases
      case 1
      then show ?thesis using s(6) x(2) by simp
    next
      case 2
      then have "in_block ?T (next_pk t) (rgt P) (depth P + 1) n x" using assms(2) by blast
      then show ?thesis using s(4) by (simp add: in_block_def)
    qed
  qed
  show ?thesis
    unfolding slot_def using f1 f2 s(2,3,4) b cc child n by simp
qed

lemma fsize_append: "fsize (xs @ ys) = fsize xs + fsize ys"
  by (simp add: fsize_def)

lemma brood_new:
  shows "brood (map (bump (tree_id P) (rgt P) 2) t
                  @ [new_row (next_pk t) (tree_id P) (rgt P) (depth P + 1) dat])
               (new_row (next_pk t) (tree_id P) (rgt P) (depth P + 1) dat) []"
proof -
  let ?new = "new_row (next_pk t) (tree_id P) (rgt P) (depth P + 1) dat"
  have "next_pk (map (bump (tree_id P) (rgt P) 2) t @ [?new]) = next_pk t + 1"
    using next_pk_append_block[of "[?new]" t 1 "bump (tree_id P) (rgt P) 2"]
    by (simp add: new_row_def ids_Suc)
  then show ?thesis
    by (simp add: brood_def region_def) (simp add: new_row_def)
qed

lemma brood_after:
  assumes "slot t P" and "brood t P prev"
  shows "brood (map (bump (tree_id P) (rgt P) (2 * int (rsize c))) t
                  @ enc_tree (tree_id P) (next_pk t) (rgt P) (depth P + 1) c)
               (P\<lparr>rgt := rgt P + 2 * int (rsize c)\<rparr>) (prev @ [c])"
proof -
  let ?T = "tree_id P" and ?w = "2 * int (rsize c)" and ?d = "depth P + 1"
  let ?Ed = "enc_forest ?T (pk P + 1) (lft P + 1) ?d prev"
  let ?Ec = "enc_tree ?T (next_pk t) (rgt P) ?d c"
  let ?t2 = "map (bump ?T (rgt P) ?w) t @ ?Ec"
  have br: "rgt P = lft P + 1 + 2 * int (fsize prev)" "next_pk t = pk P + 1 + int (fsize prev)"
    "region t ?T (lft P + 1) (fsize prev) ?Ed"
    using assms(2) by (simp_all add: brood_def)
  have b: "\<forall>x \<in> set t. tree_id x = ?T \<longrightarrow> lft x < rgt P"
    using assms(1) by (simp add: slot_def)
  have E: "enc_forest ?T (pk P + 1) (lft P + 1) ?d (prev @ [c]) = ?Ed @ ?Ec"
    by (simp add: enc_forest_append br(1,2) algebra_simps)
  have fx: "\<And>x. x \<in> set ?Ed \<Longrightarrow> bump ?T (rgt P) ?w x = x"
  proof -
    fix x assume "x \<in> set ?Ed"
    then have "in_block ?T (pk P + 1) (lft P + 1) ?d (fsize prev) x" by (rule enc_block(2))
    then show "bump ?T (rgt P) ?w x = x" by (rule bump_block) (simp add: br(1))
  qed
  have np: "next_pk ?t2 = next_pk t + int (rsize c)"
    by (rule next_pk_append_block) (simp_all add: enc_pks)
  have sub: "set (?Ed @ ?Ec) \<subseteq> set ?t2"
  proof
    fix x assume "x \<in> set (?Ed @ ?Ec)"
    then consider "x \<in> set ?Ed" | "x \<in> set ?Ec" by auto
    then show "x \<in> set ?t2"
    proof cases
      case 1
      then have "x \<in> set t" using br(3) by (auto simp: region_def)
      then have "bump ?T (rgt P) ?w x \<in> set (map (bump ?T (rgt P) ?w) t)" by simp
      then show ?thesis using fx[OF 1] by simp
    next
      case 2
      then show ?thesis by simp
    qed
  qed
  have cov: "\<forall>z \<in> set ?t2. tree_id z = ?T \<and> lft P + 1 \<le> lft z \<and>
               lft z \<le> lft P + 1 + 2 * int (fsize (prev @ [c])) - 1 \<longrightarrow> z \<in> set (?Ed @ ?Ec)"
  proof (intro ballI impI)
    fix z assume z: "z \<in> set ?t2" "tree_id z = ?T \<and> lft P + 1 \<le> lft z \<and>
               lft z \<le> lft P + 1 + 2 * int (fsize (prev @ [c])) - 1"
    from z(1) consider y where "y \<in> set t" "z = bump ?T (rgt P) ?w y" | "z \<in> set ?Ec" by auto
    then show "z \<in> set (?Ed @ ?Ec)"
    proof cases
      case 1
      then have "lft y < rgt P" using b z(2) by simp
      then have "y \<in> set ?Ed" using br(1,3) 1 z(2) by (simp add: region_def)
      then show ?thesis using fx[of y] 1 by simp
    next
      case 2
      then show ?thesis by simp
    qed
  qed
  show ?thesis
    unfolding brood_def
    using br(1,2) np sub cov by (simp add: E fsize_append region_def)
qed

subsection \<open>Adding a forest of children\<close>

lemma key_sorted_kids: "key_sorted cfg r \<Longrightarrow> in_key_order cfg [] (kids r)"
  by (cases r) (auto simp: in_key_order_def kids_def split: option.splits)

lemma in_key_order_Cons:
  assumes "in_key_order cfg prev (c # cs)"
  shows "node_order_by cfg = [] \<or> (\<forall>a \<in> set prev. \<not> key_after cfg (rdata a) (rdata c))"
    and "in_key_order cfg [] (kids c)" and "in_key_order cfg (prev @ [c]) cs"
  using assms key_sorted_kids[of cfg c]
  by (auto simp: in_key_order_def sorted_wrt_append)

lemma bump_zero [simp]: "bump T x 0 r = r"
  by (simp add: bump_def)

lemma map_bump_zero [simp]: "map (bump T x 0) t = t"
  by (simp add: map_idI)

lemma clean_rec_kids:
  "clean_rec k r \<Longrightarrow> set reserved \<inter> fst ` set (rdata r) = {} \<and> list_all (clean_rec k) (kids r)"
  by (cases r) (auto simp: kids_def split: option.splits)

lemma push_children_kids:
  "push_children i r st = map (\<lambda>c. (Some i, c)) (kids r) @ st"
  by (simp add: push_children_def kids_def split: option.splits)

lemma load_one_slot:
  assumes "slot t P" and "brood t P prev" and "set reserved \<inter> fst ` set (rdata c) = {}"
    and "node_order_by cfg = [] \<or> (\<forall>a \<in> set prev. \<not> key_after cfg (rdata a) (rdata c))"
  shows "load_one cfg False t (Some (pk P)) c =
           Inr (map (bump (tree_id P) (rgt P) 2) t
                  @ [new_row (next_pk t) (tree_id P) (rgt P) (depth P + 1) (rdata c)],
                new_row (next_pk t) (tree_id P) (rgt P) (depth P + 1) (rdata c))"
proof -
  have g: "objects_get t (pk P) = Inr P" and z: "pk P \<noteq> 0"
    using assms(1) by (simp_all add: slot_def objects_get_def)
  obtain P' where "add_child cfg t P (rdata c) =
           Inr (map (bump (tree_id P) (rgt P) 2) t
                  @ [new_row (next_pk t) (tree_id P) (rgt P) (depth P + 1) (rdata c)],
                new_row (next_pk t) (tree_id P) (rgt P) (depth P + 1) (rdata c), P')"
    using add_child_slot[OF assms] by blast
  then show ?thesis by (simp add: load_one_def node_data_def g z)
qed

lemma load_forest:
  "slot t P \<Longrightarrow> brood t P prev \<Longrightarrow> list_all (clean_rec k) cs \<Longrightarrow> in_key_order cfg prev cs \<Longrightarrow>
     load_loop cfg False (map (\<lambda>c. (Some (pk P), c)) cs @ st) t added =
     load_loop cfg False st
       (map (bump (tree_id P) (rgt P) (2 * int (fsize cs))) t
          @ enc_forest (tree_id P) (next_pk t) (rgt P) (depth P + 1) cs)
       (added @ ids (next_pk t) (fsize cs))"
proof (induction "fsize cs" arbitrary: cs t P "prev" st added rule: less_induct)
  case less
  show ?case
  proof (cases cs)
    case Nil
    then show ?thesis by simp
  next
    case (Cons c cs')
    let ?T = "tree_id P" and ?x = "rgt P" and ?d = "depth P + 1" and ?k = "next_pk t"
    let ?fk = "fsize (kids c)"
    define new where "new = new_row ?k ?T ?x ?d (rdata c)"
    define t1 where "t1 = map (bump ?T ?x 2) t @ [new]"
    define rest where "rest = map (\<lambda>c. (Some (pk P), c)) cs' @ st"
    have cl: "set reserved \<inter> fst ` set (rdata c) = {}" "list_all (clean_rec k) (kids c)"
      "list_all (clean_rec k) cs'"
      using less.prems(3) Cons clean_rec_kids[of k c] by simp_all
    have ko: "node_order_by cfg = [] \<or> (\<forall>a \<in> set prev. \<not> key_after cfg (rdata a) (rdata c))"
      "in_key_order cfg [] (kids c)" "in_key_order cfg (prev @ [c]) cs'"
      using in_key_order_Cons[of cfg "prev" c cs'] less.prems(4) Cons by simp_all
    have sz: "rsize c = Suc ?fk" by (rule rsize_kids)
    have lo: "load_one cfg False t (Some (pk P)) c = Inr (t1, new)"
      unfolding t1_def new_def by (rule load_one_slot[OF less.prems(1,2) cl(1) ko(1)])
    have pkn: "pk new = ?k" "tree_id new = ?T" "rgt new = ?x + 1" "depth new + 1 = ?d + 1"
      by (simp_all add: new_row_def new_def)
    have step1: "load_loop cfg False (map (\<lambda>c. (Some (pk P), c)) cs @ st) t added =
        load_loop cfg False (map (\<lambda>c. (Some (pk new), c)) (kids c) @ rest) t1 (added @ [?k])"
      using Cons lo by (simp add: push_children_kids pkn(1) rest_def)
    \<comment> \<open>the children of \<open>c\<close>\<close>
    have s1: "slot t1 new" unfolding t1_def new_def by (rule slot_new[OF less.prems(1)])
    have b1: "brood t1 new []" unfolding t1_def new_def by (rule brood_new)
    have lt1: "?fk < fsize cs" using Cons sz by simp
    have np1: "next_pk t1 = ?k + 1"
      unfolding t1_def
      using next_pk_append_block[of "[new]" t 1 "bump ?T ?x 2"]
      by (simp add: pkn(1) ids_Suc)
    define t2 where "t2 = map (bump ?T (?x + 1) (2 * int ?fk)) t1
                 @ enc_forest ?T (?k + 1) (?x + 1) (?d + 1) (kids c)"
    have step2: "load_loop cfg False (map (\<lambda>c. (Some (pk new), c)) (kids c) @ rest) t1 (added @ [?k]) =
        load_loop cfg False rest t2 ((added @ [?k]) @ ids (?k + 1) ?fk)"
      using less.hyps[OF lt1 s1 b1 cl(2) ko(2), of rest "added @ [?k]"]
      unfolding pkn np1 t2_def .
    have t2: "t2 = map (bump ?T ?x (2 * int (rsize c))) t @ enc_tree ?T ?k ?x ?d c"
    proof -
      have "map (bump ?T (?x + 1) (2 * int ?fk)) (map (bump ?T ?x 2) t)
              = map (bump ?T ?x (2 * int (rsize c))) t"
        by (simp add: bump_bump sz)
      moreover have "bump ?T (?x + 1) (2 * int ?fk) new
              = \<lparr>pk = ?k, tree_id = ?T, lft = ?x, rgt = ?x + 2 * int (rsize c) - 1, depth = ?d,
                 payload = rdata c\<rparr>"
        by (simp add: bump_def new_row_def new_def sz)
      ultimately show ?thesis
        unfolding t2_def t1_def by (simp add: enc_tree_kids[of ?T ?k ?x ?d c])
    qed
    \<comment> \<open>the later siblings\<close>
    define P2 where "P2 = P\<lparr>rgt := ?x + 2 * int (rsize c)\<rparr>"
    have p2: "pk P2 = pk P" "tree_id P2 = ?T" "rgt P2 = ?x + 2 * int (rsize c)" "depth P2 = depth P"
      by (simp_all add: P2_def)
    have blk: "\<forall>x \<in> set (enc_tree ?T ?k ?x ?d c). in_block ?T ?k ?x ?d (rsize c) x"
      using enc_block(1) by blast
    have top: "\<exists>x \<in> set (enc_tree ?T ?k ?x ?d c). depth x = ?d"
      by (simp add: enc_tree_kids[of ?T ?k ?x ?d c])
    have s2: "slot t2 P2" unfolding t2 P2_def by (rule slot_after[OF less.prems(1) blk top])
    have b2: "brood t2 P2 (prev @ [c])"
      unfolding t2 P2_def by (rule brood_after[OF less.prems(1,2)])
    have lt2: "fsize cs' < fsize cs" using Cons by simp
    have np2: "next_pk t2 = ?k + int (rsize c)"
      unfolding t2 by (rule next_pk_append_block) (simp_all add: enc_pks)
    define t3 where "t3 = map (bump ?T (?x + 2 * int (rsize c)) (2 * int (fsize cs'))) t2
                @ enc_forest ?T (?k + int (rsize c)) (?x + 2 * int (rsize c)) ?d cs'"
    have step3: "load_loop cfg False rest t2 ((added @ [?k]) @ ids (?k + 1) ?fk) =
        load_loop cfg False st t3
          (((added @ [?k]) @ ids (?k + 1) ?fk) @ ids (?k + int (rsize c)) (fsize cs'))"
      using less.hyps[OF lt2 s2 b2 cl(3) ko(3), of st "(added @ [?k]) @ ids (?k + 1) ?fk"]
      unfolding p2 np2 t3_def rest_def .
    have t3: "t3 = map (bump ?T ?x (2 * int (fsize cs))) t @ enc_forest ?T ?k ?x ?d cs"
    proof -
      have "map (bump ?T (?x + 2 * int (rsize c)) (2 * int (fsize cs')))
              (map (bump ?T ?x (2 * int (rsize c))) t)
            = map (bump ?T ?x (2 * int (fsize cs))) t"
        using Cons by (simp add: bump_bump)
      moreover have "map (bump ?T (?x + 2 * int (rsize c)) (2 * int (fsize cs')))
              (enc_tree ?T ?k ?x ?d c) = enc_tree ?T ?k ?x ?d c"
      proof (rule map_idI)
        fix x assume "x \<in> set (enc_tree ?T ?k ?x ?d c)"
        then have "in_block ?T ?k ?x ?d (rsize c) x" using blk by blast
        then show "bump ?T (?x + 2 * int (rsize c)) (2 * int (fsize cs')) x = x"
          by (rule bump_block) simp
      qed
      ultimately show ?thesis unfolding t3_def t2 using Cons by simp
    qed
    have ad: "((added @ [?k]) @ ids (?k + 1) ?fk) @ ids (?k + int (rsize c)) (fsize cs')
                = added @ ids ?k (fsize cs)"
      using Cons by (simp add: ids_add sz ids_Suc add.assoc)
    show ?thesis
      unfolding step1 step2 step3 t3 ad ..
  qed
qed

subsection \<open>Adding the root\<close>

lemma new_tree_id_fresh:
  assumes "every_tree_has_root t" and "x \<in> set t"
  shows "tree_id x < new_tree_id t"
proof -
  obtain r' where r': "r' \<in> set t" "tree_id r' = tree_id x" "lft r' = 1"
    using assms by (auto simp: every_tree_has_root_def list_all_iff list_ex_iff)
  then have "r' \<in> set (get_root_nodes t)"
    by (simp add: get_root_nodes_def objects_filter_def ordered_def)
  then have ne: "get_root_nodes t \<noteq> []" by auto
  have "tree_id x \<le> Max (tree_id ` set t)" using assms(2) by simp
  then show ?thesis
    using last_root_max[OF assms(1) ne] ne
    by (simp add: new_tree_id_def get_last_root_node_def last_opt_eq)
qed

lemma pk_move_tree_right: "map pk (move_tree_right T t) = map pk t"
  by (simp add: move_tree_right_def sql_update_def comp_def)

lemma next_pk_move_tree_right: "next_pk (move_tree_right T t) = next_pk t"
  by (simp add: next_pk_def pk_move_tree_right)

lemma root_place_parts:
  assumes "root_place cfg t dat = (T, t0)"
  shows "t0 = t \<or> t0 = move_tree_right T t"
  using assms
  by (fastforce simp: root_place_def split: option.splits if_splits list.splits)

lemma root_place_pks:
  assumes "root_place cfg t dat = (T, t0)"
  shows "next_pk t0 = next_pk t" and "\<forall>x \<in> set t0. pk x \<noteq> next_pk t"
proof -
  show n: "next_pk t0 = next_pk t"
    using root_place_parts[OF assms] next_pk_move_tree_right by auto
  show "\<forall>x \<in> set t0. pk x \<noteq> next_pk t"
    using next_pk_fresh[of _ t0] n by fastforce
qed

lemma root_place_fresh:
  assumes "every_tree_has_root t" and "root_place cfg t dat = (T, t0)"
  shows "\<forall>x \<in> set t0. tree_id x \<noteq> T"
proof (cases "get_last_root_node t")
  case None
  have "t = []"
  proof (rule ccontr)
    assume "t \<noteq> []"
    then obtain x where "x \<in> set t" by (cases t) auto
    then have "tree_id x < new_tree_id t" by (rule new_tree_id_fresh[OF assms(1)])
    then obtain r' where "r' \<in> set t" "lft r' = 1"
      using assms(1) \<open>x \<in> set t\<close>
      by (auto simp: every_tree_has_root_def list_all_iff list_ex_iff)
    then have "r' \<in> set (get_root_nodes t)"
      by (simp add: get_root_nodes_def objects_filter_def ordered_def)
    then show False using None by (auto simp: get_last_root_node_def last_opt_eq split: if_splits)
  qed
  then show ?thesis using assms(2) None by (simp add: root_place_def)
next
  case (Some l)
  have last: "\<forall>x \<in> set t. tree_id x \<noteq> tree_id l + 1"
    using new_tree_id_fresh[OF assms(1)] Some by (fastforce simp: new_tree_id_def)
  have shift: "\<And>s. \<forall>x \<in> set (move_tree_right (tree_id s) t). tree_id x \<noteq> tree_id s"
    by (auto simp: move_tree_right_def sql_update_def)
  show ?thesis
    using assms(2) Some last shift
    by (auto simp: root_place_def split: if_splits list.splits)
qed

lemma add_root_place:
  assumes "set reserved \<inter> fst ` set kwargs = {}"
    and "node_order_by cfg = [] \<or> roots_at_depth_one t"
    and "root_place cfg t kwargs = (T, t0)"
  shows "add_root cfg t kwargs =
           Inr (t0 @ [new_row (next_pk t) T 1 1 kwargs], new_row (next_pk t) T 1 1 kwargs)"
proof (cases "get_last_root_node t")
  case None
  then show ?thesis
    using insert_new_fresh[OF assms(1), of t 1 1 1] assms(3)
    by (simp add: add_root_def root_place_def)
next
  case (Some l)
  have pl: "new_payload kwargs = kwargs"
    using assms(1) by (auto simp: new_payload_def filter_id_conv)
  show ?thesis
  proof (cases "node_order_by cfg = []")
    case True
    then show ?thesis
      using insert_new_fresh[OF assms(1), of t _ 1 1] assms(3) Some
      by (simp add: add_root_def root_place_def)
  next
    case False
    have lin: "l \<in> set (get_root_nodes t)"
      using Some by (simp add: get_last_root_node_def last_opt_mem)
    then have l1: "lft l = 1" and lt: "l \<in> set t"
      by (simp_all add: get_root_nodes_def objects_filter_def ordered_def)
    have dl: "depth l = 1"
      using assms(2) False lt l1 by (auto simp: roots_at_depth_one_def list_all_iff)
    have gs: "get_siblings t l = Inr (get_root_nodes t)" using l1 by (simp add: get_siblings_def)
    show ?thesis
    proof (cases "get_sorted_pos_queryset cfg (get_root_nodes t) kwargs")
      case Nil
      then have tt: "T = tree_id l + 1" "t0 = t"
        using assms(3) Some False by (auto simp: root_place_def)
      have rs: "resolve_sorted cfg t l (new_payload kwargs) SortedSibling = Inr (l, LastSibling)"
        by (simp add: resolve_sorted_def gs pl Nil)
      show ?thesis
        using False Some insert_new_fresh[OF assms(1), of t "tree_id l + 1" 1 1]
        by (simp add: add_root_def add_sibling_def add_sibling_cached_def is_root_def l1 rs dl tt
            Let_def)
    next
      case (Cons s ss)
      then have tt: "T = tree_id s" "t0 = move_tree_right (tree_id s) t"
        using assms(3) Some False by (auto simp: root_place_def)
      have rs: "resolve_sorted cfg t l (new_payload kwargs) SortedSibling = Inr (s, Left)"
        by (simp add: resolve_sorted_def gs pl Cons)
      show ?thesis
        using False Some
          insert_new_fresh[OF assms(1), of "move_tree_right (tree_id s) t" "tree_id s" 1 1]
        by (simp add: add_root_def add_sibling_def add_sibling_cached_def is_root_def l1 rs dl tt
            next_pk_move_tree_right Let_def)
    qed
  qed
qed

lemma slot_root:
  assumes "\<forall>x \<in> set t. tree_id x \<noteq> T"
  shows "slot (t @ [new_row (next_pk t) T 1 1 dat]) (new_row (next_pk t) T 1 1 dat)"
proof -
  have "filter (\<lambda>r. pk r = next_pk t) t = []"
    by (auto simp: filter_empty_conv dest: next_pk_fresh)
  then have "filter (\<lambda>r. pk r = pk (new_row (next_pk t) T 1 1 dat))
               (t @ [new_row (next_pk t) T 1 1 dat]) = [new_row (next_pk t) T 1 1 dat]"
    by (simp add: new_row_def)
  then show ?thesis
    unfolding slot_def using assms next_pk_pos[of t]
    by (auto simp: new_row_def is_leaf_def)
qed

lemma brood_root: "brood (t @ [new_row (next_pk t) T 1 1 dat]) (new_row (next_pk t) T 1 1 dat) []"
proof -
  let ?new = "new_row (next_pk t) T 1 1 dat"
  have "next_pk (t @ [?new]) = next_pk t + 1"
    using next_pk_append_block[of "[?new]" t 1 "\<lambda>x. x"] by (simp add: new_row_def ids_Suc)
  then show ?thesis
    by (simp add: brood_def region_def) (simp add: new_row_def)
qed

lemma load_bulk_root:
  assumes etr: "every_tree_has_root t" and cl: "clean_rec k r"
    and ord: "node_order_by cfg = [] \<or> (roots_at_depth_one t \<and> key_sorted cfg r)"
    and rp: "root_place cfg t (rdata r) = (T, t0)"
  shows "load_bulk cfg t [r] None False =
           Inr (t0 @ enc_tree T (next_pk t) 1 1 r, ids (next_pk t) (rsize r))"
proof -
  let ?k = "next_pk t"
  define root where "root = new_row ?k T 1 1 (rdata r)"
  define t1 where "t1 = t0 @ [root]"
  have c: "set reserved \<inter> fst ` set (rdata r) = {}" "list_all (clean_rec k) (kids r)"
    using clean_rec_kids[OF cl] by simp_all
  have fresh: "\<forall>x \<in> set t0. tree_id x \<noteq> T" by (rule root_place_fresh[OF etr rp])
  have n0: "next_pk t0 = ?k" by (rule root_place_pks(1)[OF rp])
  have ar: "add_root cfg t (rdata r) = Inr (t1, root)"
    unfolding t1_def root_def by (rule add_root_place[OF c(1) _ rp]) (use ord in auto)
  have lo: "load_one cfg False t None r = Inr (t1, root)"
    by (simp add: load_one_def node_data_def ar)
  have pr: "pk root = ?k" "tree_id root = T" "rgt root = 2" "depth root + 1 = 2"
    by (simp_all add: root_def new_row_def)
  have s: "slot t1 root"
    unfolding t1_def root_def using slot_root[OF fresh, of "rdata r"] by (simp add: n0)
  have b: "brood t1 root []"
    unfolding t1_def root_def using brood_root[of t0 T "rdata r"] by (simp add: n0)
  have ko: "in_key_order cfg [] (kids r)"
    using ord key_sorted_kids[of cfg r] by (auto simp: in_key_order_def)
  have np: "next_pk t1 = ?k + 1"
    unfolding t1_def using next_pk_append_block[of "[root]" t0 1 "\<lambda>x. x"]
    by (simp add: pr(1) ids_Suc n0)
  have sz: "rsize r = Suc (fsize (kids r))" by (rule rsize_kids)
  have "load_loop cfg False (map (\<lambda>c. (Some (pk root), c)) (kids r) @ []) t1 ([] @ [?k]) =
        load_loop cfg False []
          (map (bump T 2 (2 * int (fsize (kids r)))) t1 @ enc_forest T (?k + 1) 2 2 (kids r))
          (([] @ [?k]) @ ids (?k + 1) (fsize (kids r)))"
    using load_forest[OF s b c(2) ko, of "[]" "[] @ [?k]"] unfolding pr np .
  moreover have "map (bump T 2 (2 * int (fsize (kids r)))) t1 @ enc_forest T (?k + 1) 2 2 (kids r)
                  = t0 @ enc_tree T ?k 1 1 r"
  proof -
    have "map (bump T 2 (2 * int (fsize (kids r)))) t0 = t0"
      using fresh by (intro map_idI) (simp add: bump_def)
    moreover have "bump T 2 (2 * int (fsize (kids r))) root
        = \<lparr>pk = ?k, tree_id = T, lft = 1, rgt = 1 + 2 * int (rsize r) - 1, depth = 1,
           payload = rdata r\<rparr>"
      by (simp add: bump_def root_def new_row_def sz)
    ultimately show ?thesis
      unfolding t1_def by (simp add: enc_tree_kids[of T ?k 1 1 r])
  qed
  ultimately show ?thesis
    using lo by (simp add: load_bulk_def push_children_kids pr(1) sz ids_Suc)
qed

subsection \<open>Dumping an encoded tree\<close>

lemma tag_tree_kids:
  "tag_tree keep b k c =
     TRec b (rdata c) (grow None (tag_forest keep (Suc b) (k + 1) (kids c)))
       (if keep then Some k else None)"
  by (cases c; cases "kids c") (auto simp: kids_def grow_def split: option.splits)

lemma append_child_absent: "a \<notin> addrs y \<Longrightarrow> append_child a c y = y"
proof (induction a c y rule: append_child.induct)
  case (1 a c b d ch i)
  show ?case
  proof (cases ch)
    case None
    then show ?thesis using 1 by simp
  next
    case (Some cs)
    have "map (append_child a c) cs = cs"
      using 1 Some by (intro map_idI) auto
    then show ?thesis using 1 Some by simp
  qed
qed

lemma append_child_nested:
  assumes "b \<notin> addrs x"
  shows "append_child b c (append_child a (TRec b dat ch i) x)
           = append_child a (TRec b dat (grow ch [c]) i) x"
  using assms
proof (induction a "TRec b dat ch i" x rule: append_child.induct)
  case (1 a e d' ch' i')
  have be: "b \<noteq> e" using 1(2) by simp
  show ?case
  proof (cases "a = e")
    case True
    let ?cs0 = "case ch' of None \<Rightarrow> [] | Some cs \<Rightarrow> cs"
    have "map (append_child b c) ?cs0 = ?cs0"
      using 1(2) by (intro map_idI append_child_absent) (auto split: option.splits)
    then show ?thesis using True be
      by (cases ch) (auto simp: grow_def split: option.splits)
  next
    case False
    show ?thesis
    proof (cases ch')
      case None
      then show ?thesis using False be by simp
    next
      case (Some cs)
      have "\<And>y. y \<in> set cs \<Longrightarrow> append_child b c (append_child a (TRec b dat ch i) y)
               = append_child a (TRec b dat (grow ch [c]) i) y"
        using 1(1)[OF False Some] 1(2) Some by auto
      then show ?thesis using False be Some by simp
    qed
  qed
qed

lemma grow_grow: "grow (grow ch [c]) cs = grow ch (c # cs)"
  by (auto simp: grow_def split: option.splits)

lemma grow_nil [simp]: "grow ch [] = ch"
  by (simp add: grow_def)

lemma fold_append_nested:
  assumes "\<forall>x \<in> set rt. b \<notin> addrs x"
  shows "fold (\<lambda>c' rt. map (append_child b c') rt) cs (map (append_child a (TRec b dat ch i)) rt)
           = map (append_child a (TRec b dat (grow ch cs) i)) rt"
proof (induction cs arbitrary: ch)
  case Nil
  then show ?case by simp
next
  case (Cons c cs)
  have "map (append_child b c) (map (append_child a (TRec b dat ch i)) rt)
          = map (append_child a (TRec b dat (grow ch [c]) i)) rt"
    using assms by (simp add: append_child_nested)
  then have "fold (\<lambda>c' rt. map (append_child b c') rt) (c # cs)
               (map (append_child a (TRec b dat ch i)) rt)
             = fold (\<lambda>c' rt. map (append_child b c') rt) cs
                 (map (append_child a (TRec b dat (grow ch [c]) i)) rt)"
    by (simp only: fold_simps)
  then show ?case using Cons[of "grow ch [c]"] by (simp only: grow_grow)
qed

lemma fold_append_top:
  assumes "\<forall>x \<in> set rt. b \<notin> addrs x"
  shows "fold (\<lambda>c' rt. map (append_child b c') rt) cs (rt @ [TRec b dat ch i])
           = rt @ [TRec b dat (grow ch cs) i]"
proof (induction cs arbitrary: ch)
  case Nil
  then show ?case by simp
next
  case (Cons c cs)
  have "map (append_child b c) rt = rt"
    using assms by (intro map_idI append_child_absent) auto
  then have "map (append_child b c) (rt @ [TRec b dat ch i]) = rt @ [TRec b dat (grow ch [c]) i]"
    by (auto simp: grow_def split: option.splits)
  then show ?case using Cons[of "grow ch [c]"] by (simp add: grow_grow)
qed

lemma addrs_append_child: "addrs (append_child a c x) \<subseteq> addrs x \<union> addrs c"
proof (induction a c x rule: append_child.induct)
  case (1 a c b d ch i)
  show ?case
  proof (cases ch)
    case None
    then show ?thesis by auto
  next
    case (Some cs)
    then show ?thesis using 1 by (auto split: if_splits)
  qed
qed

lemma addrs_tag:
  "addrs (tag_tree keep b k r) \<subseteq> {b ..< b + rsize r}"
  "\<Union> (addrs ` set (tag_forest keep b k cs)) \<subseteq> {b ..< b + fsize cs}"
proof (induction keep b k r and keep b k cs rule: tag_tree_tag_forest.induct)
  case (1 keep b k dat ch i)
  show ?case
  proof (cases ch)
    case None
    then show ?thesis by simp
  next
    case (Some cs)
    show ?thesis
    proof (cases "cs = []")
      case True
      then show ?thesis using Some by simp
    next
      case False
      have "\<Union> (addrs ` set (tag_forest keep (Suc b) (k + 1) cs)) \<subseteq> {Suc b ..< Suc b + fsize cs}"
        by (rule "1.IH"[OF Some False])
      then show ?thesis using Some False by (auto simp: fsize_def)
    qed
  qed
next
  case (2 keep b k)
  then show ?case by simp
next
  case (3 keep b k c cs)
  then show ?case by (auto simp: fsize_def)
qed

lemma dump_forest:
  assumes nr: "depth nr = 1"
  shows "region t' T l (fsize cs) (enc_forest T k l d cs) \<Longrightarrow> hangs t' T x l (fsize cs) \<Longrightarrow>
     1 < d \<Longrightarrow> list_all (clean_rec kk) cs \<Longrightarrow> map_of (lnk st) (pk x) = Some a \<Longrightarrow> pk x < k \<Longrightarrow>
     (\<forall>y \<in> set (ret st). \<forall>e \<in> addrs y. e < created st) \<Longrightarrow>
     \<exists>st'. dump_loop t' (Some nr) keep st (enc_forest T k l d cs @ rest)
             = dump_loop t' (Some nr) keep st' rest \<and>
           ret st' = fold (\<lambda>c' rt. map (append_child a c') rt)
                       (tag_forest keep (created st) k cs) (ret st) \<and>
           created st' = created st + fsize cs \<and>
           (\<forall>q<k. map_of (lnk st') q = map_of (lnk st) q) \<and>
           (\<forall>y \<in> set (ret st'). \<forall>e \<in> addrs y. e < created st')"
proof (induction "fsize cs" arbitrary: cs l k d x a st rest rule: less_induct)
  case less
  show ?case
  proof (cases cs)
    case Nil
    then show ?thesis using less.prems(7) by (intro exI[of _ st]) simp
  next
    case (Cons c cs')
    let ?sc = "rsize c" and ?fk = "fsize (kids c)"
    define w where "w = \<lparr>pk = k, tree_id = T, lft = l, rgt = l + 2 * int ?sc - 1, depth = d,
                          payload = rdata c\<rparr>"
    define b where "b = created st"
    define N where "N = TRec b (rdata c) None (if keep then Some k else None)"
    define st1 where "st1 = \<lparr>ret = map (append_child a N) (ret st), lnk = (k, b) # lnk st,
                              created = Suc b\<rparr>"
    define rest1 where "rest1 = enc_forest T (k + int ?sc) (l + 2 * int ?sc) d cs' @ rest"
    have sz: "?sc = Suc ?fk" by (rule rsize_kids)
    have reg: "region t' T l (fsize (c # cs')) (enc_forest T k l d (c # cs'))"
      and hg: "hangs t' T x l (fsize (c # cs'))"
      using less.prems(1,2) Cons by simp_all
    have cl: "set reserved \<inter> fst ` set (rdata c) = {}" "list_all (clean_rec kk) (kids c)"
      "list_all (clean_rec kk) cs'"
      using less.prems(4) Cons clean_rec_kids[of kk c] by simp_all
    have rc: "region t' T l ?sc (enc_tree T k l d c)" by (rule region_head[OF reg])
    have E: "enc_tree T k l d c = w # enc_forest T (k + 1) (l + 1) (d + 1) (kids c)"
      unfolding w_def by (rule enc_tree_kids)
    have win: "w \<in> set t'" using rc by (simp add: region_def E)
    have l1: "1 \<le> l" using hg by (simp add: hangs_def)
    have gp: "get_parent t' w = Inr (Some x)"
      by (rule get_parent_hangs[OF hg win]) (simp_all add: w_def)
    have df: "dump_fields w = rdata c"
      using dump_fields_clean[of w] cl(1) by (simp add: w_def)
    have wf: "depth w = d" "pk w = k" by (simp_all add: w_def)
    have ds: "dump_step t' (Some nr) keep st w = Inr st1"
      using dump_step_child[OF _ gp less.prems(5), of nr keep] less.prems(3) nr
      by (simp add: df st1_def N_def b_def wf)
    have loop1: "dump_loop t' (Some nr) keep st (enc_forest T k l d cs @ rest)
        = dump_loop t' (Some nr) keep st1 (enc_forest T (k + 1) (l + 1) (d + 1) (kids c) @ rest1)"
      using Cons ds by (simp add: E rest1_def)
    \<comment> \<open>the children of \<open>c\<close>\<close>
    have inv: "\<forall>y \<in> set (ret st). \<forall>e \<in> addrs y. e < b"
      using less.prems(7) by (simp add: b_def)
    have inv1: "\<forall>y \<in> set (ret st1). \<forall>e \<in> addrs y. e < created st1"
    proof (intro ballI)
      fix y e assume "y \<in> set (ret st1)" "e \<in> addrs y"
      then obtain y0 where y0: "y0 \<in> set (ret st)" "e \<in> addrs (append_child a N y0)"
        by (auto simp: st1_def)
      then have "e \<in> addrs y0 \<union> addrs N" using addrs_append_child by blast
      then consider "e \<in> addrs y0" | "e = b" by (auto simp: N_def)
      then show "e < created st1"
      proof cases
        case 1
        then have "e < b" using inv y0(1) by blast
        then show ?thesis by (simp add: st1_def)
      next
        case 2
        then show ?thesis by (simp add: st1_def)
      qed
    qed
    have lt1: "?fk < fsize cs" using Cons sz by simp
    have hk: "hangs t' T w (l + 1) ?fk" unfolding w_def by (rule hangs_kids[OF rc l1])
    have "\<exists>st2. dump_loop t' (Some nr) keep st1
                  (enc_forest T (k + 1) (l + 1) (d + 1) (kids c) @ rest1)
             = dump_loop t' (Some nr) keep st2 rest1 \<and>
           ret st2 = fold (\<lambda>c' rt. map (append_child b c') rt)
                       (tag_forest keep (created st1) (k + 1) (kids c)) (ret st1) \<and>
           created st2 = created st1 + ?fk \<and>
           (\<forall>q<k + 1. map_of (lnk st2) q = map_of (lnk st1) q) \<and>
           (\<forall>y \<in> set (ret st2). \<forall>e \<in> addrs y. e < created st2)"
      using less.prems(3)
      by (intro less.hyps[OF lt1 region_kids[OF rc] hk _ cl(2) _ _ inv1])
         (simp_all add: st1_def w_def)
    then obtain st2 where st2:
      "dump_loop t' (Some nr) keep st1 (enc_forest T (k + 1) (l + 1) (d + 1) (kids c) @ rest1)
         = dump_loop t' (Some nr) keep st2 rest1"
      "ret st2 = fold (\<lambda>c' rt. map (append_child b c') rt)
                   (tag_forest keep (created st1) (k + 1) (kids c)) (ret st1)"
      "created st2 = created st1 + ?fk"
      "\<forall>q<k + 1. map_of (lnk st2) q = map_of (lnk st1) q"
      "\<forall>y \<in> set (ret st2). \<forall>e \<in> addrs y. e < created st2"
      by blast
    have nb: "\<forall>y \<in> set (ret st). b \<notin> addrs y" using inv by auto
    have r2: "ret st2 = map (append_child a (tag_tree keep b k c)) (ret st)"
      unfolding st2(2)
      using fold_append_nested[OF nb, of "tag_forest keep (Suc b) (k + 1) (kids c)" a
          "rdata c" None "if keep then Some k else None"]
      by (simp add: st1_def N_def tag_tree_kids[of keep b k c])
    have c2: "created st2 = b + ?sc" using st2(3) by (simp add: st1_def sz)
    \<comment> \<open>the later siblings\<close>
    have lt2: "fsize cs' < fsize cs" using Cons by simp
    have px: "map_of (lnk st2) (pk x) = Some a"
      using st2(4) less.prems(5,6) by (simp add: st1_def)
    have "\<exists>st3. dump_loop t' (Some nr) keep st2
                  (enc_forest T (k + int ?sc) (l + 2 * int ?sc) d cs' @ rest)
             = dump_loop t' (Some nr) keep st3 rest \<and>
           ret st3 = fold (\<lambda>c' rt. map (append_child a c') rt)
                       (tag_forest keep (created st2) (k + int ?sc) cs') (ret st2) \<and>
           created st3 = created st2 + fsize cs' \<and>
           (\<forall>q<k + int ?sc. map_of (lnk st3) q = map_of (lnk st2) q) \<and>
           (\<forall>y \<in> set (ret st3). \<forall>e \<in> addrs y. e < created st3)"
      using less.prems(6)
      by (intro less.hyps[OF lt2 region_tail[OF reg] hangs_tail[OF hg reg] less.prems(3) cl(3) px _
            st2(5)]) simp
    then obtain st3 where st3:
      "dump_loop t' (Some nr) keep st2 (enc_forest T (k + int ?sc) (l + 2 * int ?sc) d cs' @ rest)
         = dump_loop t' (Some nr) keep st3 rest"
      "ret st3 = fold (\<lambda>c' rt. map (append_child a c') rt)
                   (tag_forest keep (created st2) (k + int ?sc) cs') (ret st2)"
      "created st3 = created st2 + fsize cs'"
      "\<forall>q<k + int ?sc. map_of (lnk st3) q = map_of (lnk st2) q"
      "\<forall>y \<in> set (ret st3). \<forall>e \<in> addrs y. e < created st3"
      by blast
    have A: "dump_loop t' (Some nr) keep st (enc_forest T k l d cs @ rest)
               = dump_loop t' (Some nr) keep st3 rest"
      using loop1 st2(1) st3(1) by (simp add: rest1_def)
    have B: "ret st3 = fold (\<lambda>c' rt. map (append_child a c') rt)
                         (tag_forest keep (created st) k cs) (ret st)"
      using Cons by (simp add: st3(2) r2 c2 b_def)
    have C: "created st3 = created st + fsize cs"
      using Cons by (simp add: st3(3) c2 b_def)
    have D: "\<forall>q<k. map_of (lnk st3) q = map_of (lnk st) q"
    proof (intro allI impI)
      fix q assume q: "q < k"
      then have "map_of (lnk st3) q = map_of (lnk st2) q" using st3(4) by simp
      also have "\<dots> = map_of (lnk st1) q" using st2(4) q by simp
      also have "\<dots> = map_of (lnk st) q" using q by (simp add: st1_def)
      finally show "map_of (lnk st3) q = map_of (lnk st) q" .
    qed
    show ?thesis using A B C D st3(5) by blast
  qed
qed

lemma strip_untag_tag:
  "normal_rec r \<Longrightarrow> strip_ids (untag (tag_tree keep b k r)) = strip_ids r"
  "list_all normal_rec cs \<Longrightarrow> map (\<lambda>c. strip_ids (untag c)) (tag_forest keep b k cs) = map strip_ids cs"
proof (induction keep b k r and keep b k cs rule: tag_tree_tag_forest.induct)
  case (1 keep b k dat ch i)
  show ?case
  proof (cases ch)
    case None
    then show ?thesis by simp
  next
    case (Some cs)
    then have ne: "cs \<noteq> []" and n: "list_all normal_rec cs" using 1(2) by simp_all
    show ?thesis using "1.IH"[OF Some ne n] Some ne by (simp add: comp_def)
  qed
next
  case (2 keep b k)
  then show ?case by simp
next
  case (3 keep b k c cs)
  then show ?case by simp
qed

lemma sorted_key_enc:
  assumes "sorted_wrt (\<lambda>a b. lft a < lft b) E" and "\<forall>x \<in> set E. tree_id x = T"
  shows "sorted (map (\<lambda>r. (tree_id r, lft r)) E)"
proof -
  have "sorted_wrt (\<lambda>a b. (tree_id a, lft a) \<le> (tree_id b, lft b)) E"
    using assms(1)
  proof (rule sorted_wrt_mono_rel[rotated])
    fix x y assume "x \<in> set E" "y \<in> set E" "lft x < lft y"
    then show "(tree_id x, lft x) \<le> (tree_id y, lft y)" using assms(2) by simp
  qed
  then show ?thesis by (simp add: sorted_map)
qed

lemma enc_top:
  "enc_tree T k l d r \<noteq> []"
  "hd (enc_tree T k l d r) =
     \<lparr>pk = k, tree_id = T, lft = l, rgt = l + 2 * int (rsize r) - 1, depth = d, payload = rdata r\<rparr>"
  by (simp_all add: enc_tree_kids[of T k l d r])

lemma filter_pk_enc:
  assumes "\<forall>x \<in> set t. pk x \<noteq> k"
  shows "filter (\<lambda>x. pk x = k) (t @ enc_tree T k l d r) = [hd (enc_tree T k l d r)]"
proof -
  have "filter (\<lambda>x. pk x = k) t = []" using assms by (simp add: filter_empty_conv)
  moreover have "filter (\<lambda>x. pk x = k) (enc_forest T (k + 1) (l + 1) (d + 1) (kids r)) = []"
    using enc_block(2)[of _ T "k + 1" "l + 1" "d + 1" "kids r"]
    by (fastforce simp: filter_empty_conv in_block_def)
  ultimately show ?thesis by (simp add: enc_tree_kids[of T k l d r])
qed

lemma get_tree_enc:
  assumes "\<forall>x \<in> set t. tree_id x \<noteq> T" and "\<forall>x \<in> set t. pk x \<noteq> k"
  shows "get_tree (t @ enc_tree T k 1 1 r) (Some (hd (enc_tree T k 1 1 r))) = enc_tree T k 1 1 r"
proof -
  let ?E = "enc_tree T k 1 1 r" and ?nr = "hd (enc_tree T k 1 1 r)"
  have nr: "?nr = \<lparr>pk = k, tree_id = T, lft = 1, rgt = 1 + 2 * int (rsize r) - 1, depth = 1,
                    payload = rdata r\<rparr>"
    by (rule enc_top)
  have blk: "\<forall>x \<in> set ?E. in_block T k 1 1 (rsize r) x" using enc_block(1) by blast
  have "\<forall>x \<in> set ?E. tree_id x = T" using blk by (simp add: in_block_def)
  then have srt: "sorted (map (\<lambda>r. (tree_id r, lft r)) ?E)"
    by (rule sorted_key_enc[OF enc_sorted(1)])
  show ?thesis
  proof (cases "is_leaf ?nr")
    case True
    then have "rsize r = 1" by (simp add: nr is_leaf_def)
    then have "kids r = []"
      using rsize_kids[of r] rsize_pos[of "hd (kids r)"] by (cases "kids r") auto
    then have E: "?E = [?nr]" by (simp add: enc_tree_kids[of T k 1 1 r])
    have "filter (\<lambda>x. pk x = pk ?nr) (t @ ?E) = [?nr]"
      using filter_pk_enc[OF assms(2), of T 1 1 r] by (simp add: nr)
    then have "filter (\<lambda>x. pk x = pk ?nr) (t @ ?E) = ?E" using E by simp
    then show ?thesis
      using True srt
      by (simp add: get_tree_def objects_filter_def ordered_def sort_key_id_if_sorted
          del: filter_append)
  next
    case False
    have "filter (\<lambda>x. tree_id x = tree_id ?nr \<and> lft ?nr \<le> lft x \<and> lft x \<le> rgt ?nr - 1) t = []"
      using assms(1) by (simp add: filter_empty_conv nr)
    moreover have "filter (\<lambda>x. tree_id x = tree_id ?nr \<and> lft ?nr \<le> lft x \<and> lft x \<le> rgt ?nr - 1) ?E
        = ?E"
      using blk by (auto simp: filter_id_conv nr in_block_def)
    ultimately show ?thesis
      using False srt
      by (simp add: get_tree_def objects_filter_def ordered_def sort_key_id_if_sorted)
  qed
qed

lemma dump_bulk_enc:
  assumes fresh: "\<forall>x \<in> set t. tree_id x \<noteq> T" and pkf: "\<forall>x \<in> set t. pk x \<noteq> k"
    and cl: "clean_rec kk r"
  shows "dump_bulk (t @ enc_tree T k 1 1 r) (Some (hd (enc_tree T k 1 1 r))) keep
           = Inr [untag (tag_tree keep 0 k r)]"
proof -
  define E where "E = enc_tree T k 1 1 r"
  define nr where "nr = hd E"
  define t' where "t' = t @ E"
  define st1 where "st1 = \<lparr>ret = [] @ [TRec 0 (rdata r) None (if keep then Some k else None)],
                            lnk = [(k, 0)], created = Suc 0\<rparr>"
  have nr: "nr = \<lparr>pk = k, tree_id = T, lft = 1, rgt = 1 + 2 * int (rsize r) - 1, depth = 1,
                   payload = rdata r\<rparr>"
    unfolding nr_def E_def by (rule enc_top)
  have Ek: "E = nr # enc_forest T (k + 1) (1 + 1) (1 + 1) (kids r)"
    unfolding nr E_def by (rule enc_tree_kids)
  have c: "set reserved \<inter> fst ` set (rdata r) = {}" "list_all (clean_rec kk) (kids r)"
    using clean_rec_kids[OF cl] by simp_all
  have gt: "get_tree t' (Some nr) = E"
    unfolding t'_def nr_def E_def by (rule get_tree_enc[OF fresh pkf])
  have blk: "\<forall>x \<in> set E. in_block T k 1 1 (rsize r) x"
    unfolding E_def using enc_block(1) by blast
  have reg: "region t' T 1 (rsize r) (enc_tree T k 1 1 r)"
    unfolding region_def t'_def using fresh by (auto simp: E_def)
  have df: "dump_fields nr = rdata r" using dump_fields_clean[of nr] c(1) by (simp add: nr)
  have nf: "depth nr = 1" "pk nr = k" by (simp_all add: nr)
  have ds: "dump_step t' (Some nr) keep \<lparr>ret = [], lnk = [], created = 0\<rparr> nr = Inr st1"
    by (simp add: dump_step_def df nf st1_def)
  have hk: "hangs t' T nr (1 + 1) (fsize (kids r))"
    unfolding nr by (rule hangs_kids[OF reg]) simp
  have "\<exists>st'. dump_loop t' (Some nr) keep st1 (enc_forest T (k + 1) (1 + 1) (1 + 1) (kids r) @ [])
             = dump_loop t' (Some nr) keep st' [] \<and>
           ret st' = fold (\<lambda>c' rt. map (append_child 0 c') rt)
                       (tag_forest keep (created st1) (k + 1) (kids r)) (ret st1) \<and>
           created st' = created st1 + fsize (kids r) \<and>
           (\<forall>q<k + 1. map_of (lnk st') q = map_of (lnk st1) q) \<and>
           (\<forall>y \<in> set (ret st'). \<forall>e \<in> addrs y. e < created st')"
    by (intro dump_forest[OF nf(1) region_kids[OF reg] hk _ c(2)])
       (simp_all add: st1_def nf)
  then obtain st' where st':
    "dump_loop t' (Some nr) keep st1 (enc_forest T (k + 1) (1 + 1) (1 + 1) (kids r) @ [])
       = dump_loop t' (Some nr) keep st' []"
    "ret st' = fold (\<lambda>c' rt. map (append_child 0 c') rt)
                 (tag_forest keep (created st1) (k + 1) (kids r)) (ret st1)"
    by blast
  have "ret st' = [] @ [TRec 0 (rdata r) (grow None (tag_forest keep (Suc 0) (k + 1) (kids r)))
                          (if keep then Some k else None)]"
    unfolding st'(2) st1_def
    using fold_append_top[of "[]" 0 "tag_forest keep (Suc 0) (k + 1) (kids r)" "rdata r" None
        "if keep then Some k else None"]
    by simp
  then have r: "ret st' = [tag_tree keep 0 k r]" by (simp add: tag_tree_kids[of keep 0 k r])
  have "dump_loop t' (Some nr) keep \<lparr>ret = [], lnk = [], created = 0\<rparr> E = Inr st'"
    using ds st'(1) by (simp add: Ek)
  then show ?thesis
    using gt r unfolding t'_def nr_def E_def by (simp add: dump_bulk_def)
qed

subsection \<open>The dump of a table, loaded and dumped again\<close>

lemma normal_append_child:
  "normal_rec (untag c) \<Longrightarrow> normal_rec (untag tr) \<Longrightarrow> normal_rec (untag (append_child a c tr))"
proof (induction a c tr rule: append_child.induct)
  case (1 a c b d ch i)
  show ?case
  proof (cases ch)
    case None
    then show ?thesis using 1 by simp
  next
    case (Some cs)
    have "list_all (\<lambda>x. normal_rec (untag x)) cs" and ne: "cs \<noteq> []"
      using 1(3) Some by (simp_all add: list_all_iff)
    then have "a \<noteq> b \<Longrightarrow> list_all (\<lambda>x. normal_rec (untag (append_child a c x))) cs"
      using 1(1)[OF _ Some _ 1(2)] by (auto simp: list_all_iff)
    then show ?thesis using 1 Some ne by (auto simp: list_all_iff)
  qed
qed

lemma dump_step_normal:
  assumes "dump_step t parent k st pyobj = Inr st'"
    and "list_all (\<lambda>x. normal_rec (untag x)) (ret st)"
  shows "list_all (\<lambda>x. normal_rec (untag x)) (ret st')"
proof -
  let ?new = "TRec (created st) (dump_fields pyobj) None (if k then Some (pk pyobj) else None)"
  have n: "normal_rec (untag ?new)" by simp
  show ?thesis
    using assms n normal_append_child[OF n]
    by (auto simp: dump_step_def Let_def list_all_iff split: if_splits sum.splits option.splits)
qed

lemma dump_loop_normal:
  "dump_loop t parent k st qset = Inr st' \<Longrightarrow>
   list_all (\<lambda>x. normal_rec (untag x)) (ret st) \<Longrightarrow>
   list_all (\<lambda>x. normal_rec (untag x)) (ret st')"
proof (induction qset arbitrary: st)
  case Nil
  then show ?case by simp
next
  case (Cons pyobj qset)
  then obtain st1 where s: "dump_step t parent k st pyobj = Inr st1"
    and l: "dump_loop t parent k st1 qset = Inr st'"
    by (auto split: sum.splits)
  show ?case by (rule Cons.IH[OF l dump_step_normal[OF s Cons.prems(2)]])
qed

lemma dump_bulk_clean_normal:
  assumes "dump_bulk t parent keep_ids = Inr recs"
  shows "list_all (clean_rec keep_ids) recs" and "list_all normal_rec recs"
proof -
  obtain st where l: "dump_loop t parent keep_ids \<lparr>ret = [], lnk = [], created = 0\<rparr>
                        (get_tree t parent) = Inr st"
    and r: "recs = map untag (ret st)"
    using assms by (auto simp: dump_bulk_def split: sum.splits)
  have "list_all (\<lambda>x. clean_rec keep_ids (untag x)) (ret st)"
    using dump_loop_clean[OF l] by simp
  then show "list_all (clean_rec keep_ids) recs" using r by (simp add: list_all_iff)
  have "list_all (\<lambda>x. normal_rec (untag x)) (ret st)"
    using dump_loop_normal[OF l] by simp
  then show "list_all normal_rec recs" using r by (simp add: list_all_iff)
qed

text \<open>
  Claim C6. In a table where every tree has its root row: when \<open>dump_bulk\<close> of a root's
  subtree gives the record \<open>r\<close>, \<open>load_bulk\<close> of that dump succeeds, its first id is the
  new root, and \<open>dump_bulk\<close> of the new root gives one record that is equal to \<open>r\<close> once
  the ids are removed from both. This holds for the model class without a sort key, and
  for a sorted model class when the roots are at depth 1 and the siblings in \<open>r\<close> are in
  the order of the class.
\<close>

theorem dump_load_dump_roundtrip:
  assumes "every_tree_has_root t"
    and "dump_bulk t (Some root) keep1 = Inr [r]"
    and "node_order_by cfg = [] \<or> (roots_at_depth_one t \<and> key_sorted cfg r)"
  shows "\<exists>t' added nr r'.
           load_bulk cfg t [r] None False = Inr (t', added) \<and>
           objects_get t' (hd added) = Inr nr \<and>
           dump_bulk t' (Some nr) keep2 = Inr [r'] \<and>
           strip_ids r' = strip_ids r"
proof -
  obtain T t0 where rp: "root_place cfg t (rdata r) = (T, t0)" by (cases "root_place cfg t (rdata r)")
  let ?k = "next_pk t"
  let ?E = "enc_tree T ?k 1 1 r"
  have cl: "clean_rec keep1 r" and nm: "normal_rec r"
    using dump_bulk_clean_normal[OF assms(2)] by simp_all
  have fresh: "\<forall>x \<in> set t0. tree_id x \<noteq> T" by (rule root_place_fresh[OF assms(1) rp])
  have pkf: "\<forall>x \<in> set t0. pk x \<noteq> ?k" by (rule root_place_pks(2)[OF rp])
  have 1: "load_bulk cfg t [r] None False = Inr (t0 @ ?E, ids ?k (rsize r))"
    by (rule load_bulk_root[OF assms(1) cl assms(3) rp])
  have "hd (ids ?k (rsize r)) = ?k" using rsize_kids[of r] by (simp add: ids_Suc)
  then have 2: "objects_get (t0 @ ?E) (hd (ids ?k (rsize r))) = Inr (hd ?E)"
    using filter_pk_enc[OF pkf, of T 1 1 r] by (simp add: objects_get_def)
  have 3: "dump_bulk (t0 @ ?E) (Some (hd ?E)) keep2 = Inr [untag (tag_tree keep2 0 ?k r)]"
    by (rule dump_bulk_enc[OF fresh pkf cl])
  have 4: "strip_ids (untag (tag_tree keep2 0 ?k r)) = strip_ids r"
    by (rule strip_untag_tag(1)[OF nm])
  show ?thesis using 1 2 3 4 by blast
qed

theorem dump_load_dump_roundtrip_witness:
  "every_tree_has_root family_n \<and>
   dump_bulk family_n (Some root_n) True = Inr [dump_n] \<and>
   node_order_by by_n_config \<noteq> [] \<and> roots_at_depth_one family_n \<and>
   key_sorted by_n_config dump_n \<and>
   (\<exists>t' added nr r'.
      load_bulk by_n_config family_n [dump_n] None False = Inr (t', added) \<and>
      objects_get t' (hd added) = Inr nr \<and>
      dump_bulk t' (Some nr) True = Inr [r'] \<and>
      strip_ids r' =
        Rec [(''n'', IntV 0)] (Some [Rec [(''n'', IntV 1)] None None, Rec [(''n'', IntV 2)] None None])
          None)"
proof -
  have a: "every_tree_has_root family_n"
    by (simp add: every_tree_has_root_def family_n_def root_n_def)
  have b: "dump_bulk family_n (Some root_n) True = Inr [dump_n]"
    by (simp add: dump_bulk_def get_tree_def is_leaf_def objects_filter_def ordered_def
        dump_step_def dump_fields_def serialize_fields_def del_key_def get_parent_def is_root_def
        get_ancestors_def last_opt_def family_n_def root_n_def dump_n_def Let_def)
  have c: "node_order_by by_n_config \<noteq> []" by (simp add: by_n_config_def)
  have d: "roots_at_depth_one family_n"
    by (simp add: roots_at_depth_one_def family_n_def root_n_def)
  have e: "key_sorted by_n_config dump_n" by (simp add: dump_n_def by_n_config_def)
  have s: "strip_ids dump_n =
        Rec [(''n'', IntV 0)] (Some [Rec [(''n'', IntV 1)] None None, Rec [(''n'', IntV 2)] None None])
          None"
    by (simp add: dump_n_def)
  show ?thesis
    using dump_load_dump_roundtrip[OF a b, of by_n_config True] a b c d e unfolding s by blast
qed

end
